theory Spec2Isabelle
  imports Main
begin

section \<open>Python values used by the scheduling code\<close>

text \<open>
  The exceptions the modelled code can meet. \<open>HttpError\<close> and \<open>RuntimeError\<close> come out of
  the Google client wrappers of \<open>app/google_calendar.py\<close>, \<open>DBError\<close> stands for any
  exception of the SQLAlchemy session (\<open>IntegrityError\<close> included).
\<close>

datatype pyerr = TypeError | ValueError | HttpError | RuntimeError | DBError

text \<open>
  A \<open>datetime.datetime\<close>: the wall-clock reading in microseconds from a fixed origin, and
  the UTC offset in microseconds of an aware value (\<open>None\<close> for a naive one).
  The range limits of \<open>datetime\<close> and \<open>timedelta\<close> (years 1 to 9999) are not modelled.
\<close>

datatype datetime = DT (wall: int) (utcoffset: "int option")

text \<open>The instant two values of the same kind are compared by.\<close>

definition instant :: "datetime \<Rightarrow> int" where
  "instant d = (case utcoffset d of None \<Rightarrow> wall d | Some off \<Rightarrow> wall d - off)"

definition naive :: "datetime \<Rightarrow> bool" where
  "naive d = (utcoffset d = None)"

text \<open>
  Order comparisons of \<open>datetime\<close>: between a naive and an aware value Python raises
  \<open>TypeError\<close> ("can't compare offset-naive and offset-aware datetimes").
\<close>

definition dt_le :: "datetime \<Rightarrow> datetime \<Rightarrow> pyerr + bool" where
  "dt_le a b = (if naive a = naive b then Inr (instant a \<le> instant b) else Inl TypeError)"

definition dt_gt :: "datetime \<Rightarrow> datetime \<Rightarrow> pyerr + bool" where
  "dt_gt a b = (if naive a = naive b then Inr (instant a > instant b) else Inl TypeError)"

text \<open>\<open>max(a, b)\<close> keeps \<open>a\<close> unless \<open>b > a\<close>.\<close>

definition dt_max :: "datetime \<Rightarrow> datetime \<Rightarrow> pyerr + datetime" where
  "dt_max a b = (case dt_gt b a of Inl e \<Rightarrow> Inl e | Inr c \<Rightarrow> Inr (if c then b else a))"

text \<open>\<open>t + timedelta(minutes=m)\<close>.\<close>

definition timedelta_add :: "datetime \<Rightarrow> int \<Rightarrow> datetime" where
  "timedelta_add t minutes = DT (wall t + minutes * 60000000) (utcoffset t)"

text \<open>\<open>s.replace("Z", "+00:00")\<close>.\<close>

definition replace_Z :: "string \<Rightarrow> string" where
  "replace_Z s = concat (map (\<lambda>c. if c = CHR ''Z'' then ''+00:00'' else [c]) s)"

section \<open>Free slots from a freebusy response (\<open>app/google_calendar.py\<close>)\<close>

text \<open>
  One element of a calendar's \<open>"busy"\<close> list: what \<open>b.get("start")\<close> and \<open>b.get("end")\<close>
  give (\<open>None\<close> when the key is absent or null). A freebusy response is the list of its
  calendars, each with its busy list, in the order of the dictionary.
\<close>

datatype busy_entry = Busy "string option" "string option"

type_synonym freebusy_resp = "(string \<times> busy_entry list) list"

type_synonym interval = "datetime \<times> datetime"

type_synonym slot = "datetime \<times> datetime"

text \<open>
  \<open>datetime.fromisoformat\<close> is library code: it is the parameter \<open>fromisoformat\<close> of the model,
  \<open>None\<close> where it raises \<open>ValueError\<close>.

  \<open>datetime.fromisoformat(v.replace("Z", "+00:00")) if v else None\<close>: \<open>Inl\<close> when the
  parser raises, \<open>Inr None\<close> for a missing or empty string.
\<close>

definition parse_field :: "(string \<Rightarrow> datetime option) \<Rightarrow> string option \<Rightarrow> pyerr + datetime option" where
  "parse_field fromisoformat v =
     (case v of
        None \<Rightarrow> Inr None
      | Some s \<Rightarrow>
          if s = [] then Inr None
          else (case fromisoformat (replace_Z s) of None \<Rightarrow> Inl ValueError | Some d \<Rightarrow> Inr (Some d)))"

text \<open>
  The body of the inner loop (lines 193 to 200): the intervals one entry appends to
  \<open>busy_intervals\<close>; an exception is caught and the entry skipped.
\<close>

fun parse_entry :: "(string \<Rightarrow> datetime option) \<Rightarrow> busy_entry \<Rightarrow> interval list" where
  "parse_entry fromisoformat (Busy s e) =
     (case parse_field fromisoformat s of
        Inl _ \<Rightarrow> []
      | Inr bstart \<Rightarrow>
          (case parse_field fromisoformat e of
             Inl _ \<Rightarrow> []
           | Inr bend \<Rightarrow>
               (case (bstart, bend) of
                  (Some a, Some b) \<Rightarrow> [(a, b)]
                | _ \<Rightarrow> [])))"

definition aggregate_busy :: "(string \<Rightarrow> datetime option) \<Rightarrow> freebusy_resp \<Rightarrow> interval list" where
  "aggregate_busy fromisoformat calendars =
     concat (map (\<lambda>(cal_id, busy). concat (map (parse_entry fromisoformat) busy)) calendars)"

text \<open>
  \<open>busy_intervals.sort(key=lambda x: x[0])\<close>: the stable sort of the library. It raises
  \<open>TypeError\<close> when two keys cannot be compared, that is when the list holds a naive and
  an aware start.
\<close>

definition sort_by_start :: "interval list \<Rightarrow> pyerr + interval list" where
  "sort_by_start busy_intervals =
     (if list_all (\<lambda>a. list_all (\<lambda>b. naive (fst a) = naive (fst b)) busy_intervals) busy_intervals
      then Inr (sort_key (\<lambda>x. instant (fst x)) busy_intervals)
      else Inl TypeError)"

text \<open>One turn of the merge loop (lines 205 to 214).\<close>

definition merge_step :: "interval list \<Rightarrow> interval \<Rightarrow> pyerr + interval list" where
  "merge_step merged interval =
     (if merged = [] then Inr (merged @ [interval])
      else
        (case dt_le (fst interval) (snd (last merged)) of
           Inl e \<Rightarrow> Inl e
         | Inr c \<Rightarrow>
             if c then
               (case dt_max (snd (last merged)) (snd interval) of
                  Inl e \<Rightarrow> Inl e
                | Inr m \<Rightarrow> Inr (butlast merged @ [(fst (last merged), m)]))
             else Inr (merged @ [interval])))"

fun merge_loop :: "interval list \<Rightarrow> interval list \<Rightarrow> pyerr + interval list" where
  "merge_loop merged [] = Inr merged"
| "merge_loop merged (interval # rest) =
     (case merge_step merged interval of
        Inl e \<Rightarrow> Inl e
      | Inr merged' \<Rightarrow> merge_loop merged' rest)"

text \<open>Lines 203 to 214: sort, then merge.\<close>

definition merge_busy :: "interval list \<Rightarrow> pyerr + interval list" where
  "merge_busy busy_intervals =
     (case sort_by_start busy_intervals of
        Inl e \<Rightarrow> Inl e
      | Inr sorted_intervals \<Rightarrow> merge_loop [] sorted_intervals)"

text \<open>
  The \<open>while t + timedelta(minutes=duration_minutes) <= bound\<close> loops (lines 222 to 227 and
  231 to 236). With a duration that is not positive the loop may never end: the result
  is \<open>None\<close> then. A slot is kept as its two instants; the source renders each with
  \<open>isoformat() + "Z"\<close>.
\<close>

partial_function (option) pack_slots ::
  "int \<Rightarrow> datetime \<Rightarrow> datetime \<Rightarrow> slot list \<Rightarrow> (pyerr + slot list) option" where
  "pack_slots duration_minutes bound t slots =
     (case dt_le (timedelta_add t duration_minutes) bound of
        Inl e \<Rightarrow> Some (Inl e)
      | Inr c \<Rightarrow>
          if c then
            pack_slots duration_minutes bound (timedelta_add t duration_minutes)
              (slots @ [(t, timedelta_add t duration_minutes)])
          else Some (Inr slots))"

declare pack_slots.simps [code]

text \<open>
  The \<open>for bstart, bend in merged\<close> loop (lines 219 to 228); it returns the last value of
  \<open>current\<close> with the slots.
\<close>

fun walk_busy ::
  "int \<Rightarrow> datetime \<Rightarrow> interval list \<Rightarrow> slot list \<Rightarrow> (pyerr + datetime \<times> slot list) option" where
  "walk_busy duration_minutes current [] slots = Some (Inr (current, slots))"
| "walk_busy duration_minutes current ((bstart, bend) # rest) slots =
     (case dt_gt bstart current of
        Inl e \<Rightarrow> Some (Inl e)
      | Inr c \<Rightarrow>
          (case (if c then pack_slots duration_minutes bstart current slots
                 else Some (Inr slots)) of
             None \<Rightarrow> None
           | Some (Inl e) \<Rightarrow> Some (Inl e)
           | Some (Inr slots') \<Rightarrow>
               (case dt_max current bend of
                  Inl e \<Rightarrow> Some (Inl e)
                | Inr current' \<Rightarrow> walk_busy duration_minutes current' rest slots')))"

text \<open>Lines 217 to 237: the slot generator over the merged busy intervals.\<close>

definition generate_slots ::
  "interval list \<Rightarrow> datetime \<Rightarrow> datetime \<Rightarrow> int \<Rightarrow> (pyerr + slot list) option" where
  "generate_slots merged start_dt end_dt duration_minutes =
     (case walk_busy duration_minutes start_dt merged [] of
        None \<Rightarrow> None
      | Some (Inl e) \<Rightarrow> Some (Inl e)
      | Some (Inr (current, slots)) \<Rightarrow> pack_slots duration_minutes end_dt current slots)"

text \<open>
  \<open>datetime(date.year, date.month, date.day, hour)\<close>: midnight of the day of \<open>date\<close> plus
  the hour, naive; \<open>ValueError\<close> unless the hour is in 0..23.
\<close>

definition day_at_hour :: "datetime \<Rightarrow> int \<Rightarrow> pyerr + datetime" where
  "day_at_hour date hour =
     (if 0 \<le> hour \<and> hour \<le> 23
      then Inr (DT (wall date - wall date mod 86400000000 + hour * 3600000000) None)
      else Inl ValueError)"

definition compute_free_slots_from_freebusy ::
  "(string \<Rightarrow> datetime option) \<Rightarrow> freebusy_resp \<Rightarrow> string \<Rightarrow> int \<Rightarrow> int \<Rightarrow> int
     \<Rightarrow> (pyerr + slot list) option" where
  "compute_free_slots_from_freebusy fromisoformat freebusy_resp date_str duration_minutes work_start work_end =
     (case fromisoformat date_str of
        None \<Rightarrow> Some (Inl ValueError)
      | Some date \<Rightarrow>
          (case day_at_hour date work_start of
             Inl e \<Rightarrow> Some (Inl e)
           | Inr start_dt \<Rightarrow>
               (case day_at_hour date work_end of
                  Inl e \<Rightarrow> Some (Inl e)
                | Inr end_dt \<Rightarrow>
                    (case merge_busy (aggregate_busy fromisoformat freebusy_resp) of
                       Inl e \<Rightarrow> Some (Inl e)
                     | Inr merged \<Rightarrow> generate_slots merged start_dt end_dt duration_minutes))))"

section \<open>The booking store (\<open>app/models.py\<close>, \<open>app/crud.py\<close>)\<close>

text \<open>
  A row of the \<open>Booking\<close> table. The columns \<open>id\<close> and \<open>end\<close> are \<open>id_col\<close> and \<open>end_col\<close>
  here.
\<close>

record booking =
  id_col :: nat
  booking_ref :: string
  idempotency_key :: "string option"
  customer_id :: "string option"
  agent_id :: "string option"
  calendar_id :: string
  event_id :: string
  service_id :: string
  start :: datetime
  end_col :: datetime
  status :: string
  paid :: bool
  created_at :: datetime
  updated_at :: "datetime option"

text \<open>
  The calls a request can make to the wrappers of \<open>app/google_calendar.py\<close>: \<open>create_event\<close>
  on a calendar, \<open>update_event\<close> and \<open>delete_event\<close> on an event of a calendar.
\<close>

datatype cal_call =
    CreateEvent string
  | UpdateEvent string string
  | DeleteEvent string string

text \<open>The steps at which the database session can raise inside a function of \<open>app/crud.py\<close>.\<close>

datatype db_step = CrudSelect | CrudCommit | CrudRefresh

text \<open>
  What lies outside the program during one request: the outcome of the freebusy query
  (an exception, or the calendars of the response), the database steps that raise, and
  the clock (microseconds, UTC).
\<close>

record env =
  freebusy :: "string list \<Rightarrow> string \<Rightarrow> string \<Rightarrow> pyerr + freebusy_resp"
  db_raises :: "db_step \<Rightarrow> bool"
  clock :: int

text \<open>
  The state the routes act on: the rows of the table and the calendar calls made so far
  (oldest first).
\<close>

record world =
  bookings :: "booking list"
  calendar_calls :: "cal_call list"

text \<open>\<open>datetime.now(timezone.utc)\<close> is an aware value.\<close>

definition now_utc :: "env \<Rightarrow> datetime" where
  "now_utc e = DT (clock e) (Some 0)"

text \<open>Truth value of an optional string.\<close>

definition truthy :: "string option \<Rightarrow> bool" where
  "truthy v = (case v of None \<Rightarrow> False | Some s \<Rightarrow> s \<noteq> [])"

text \<open>\<open>get_booking_by_ref\<close>: the first row with that reference.\<close>

definition get_booking_by_ref :: "booking list \<Rightarrow> string \<Rightarrow> booking option" where
  "get_booking_by_ref rows ref = find (\<lambda>b. booking_ref b = ref) rows"

text \<open>Writing back the row that \<open>get_booking_by_ref\<close> found.\<close>

fun update_first :: "(booking \<Rightarrow> bool) \<Rightarrow> (booking \<Rightarrow> booking) \<Rightarrow> booking list \<Rightarrow> booking list" where
  "update_first p f [] = []"
| "update_first p f (r # rs) = (if p r then f r # rs else r # update_first p f rs)"

definition update_booking_status ::
  "env \<Rightarrow> booking list \<Rightarrow> string \<Rightarrow> string \<Rightarrow> (pyerr + booking option) \<times> booking list" where
  "update_booking_status e rows ref status_v =
     (if db_raises e CrudSelect then (Inl DBError, rows)
      else
        (case get_booking_by_ref rows ref of
           None \<Rightarrow> (Inr None, rows)
         | Some b \<Rightarrow>
             (let b' = b\<lparr> status := status_v, updated_at := Some (now_utc e) \<rparr>;
                  rows' = update_first (\<lambda>r. booking_ref r = ref) (\<lambda>_. b') rows
              in if db_raises e CrudCommit then (Inl DBError, rows)
                 else if db_raises e CrudRefresh then (Inl DBError, rows')
                 else (Inr (Some b'), rows'))))"


definition cancel_booking ::
  "env \<Rightarrow> booking list \<Rightarrow> string \<Rightarrow> (pyerr + booking option) \<times> booking list" where
  "cancel_booking e rows ref = update_booking_status e rows ref ''cancelled''"

section \<open>The scheduling routes (\<open>app/routers/schedule_routes.py\<close>)\<close>

text \<open>
  A field of a JSON body that the code reads with a default, \<open>payload.get(key, default)\<close>:
  the key can be absent (the default is taken), hold \<open>null\<close> (\<open>None\<close> is taken) or hold a
  value.
\<close>

datatype 'a jfield = Absent | Null | Val 'a

text \<open>
  The JSON bodies of the requests. A field read with \<open>payload.get(key)\<close> is \<open>None\<close> when the
  key is absent or null (\<open>p_customer\<close> also when the object is empty, which Python takes
  for false); a number is an integer. A request is \<open>None\<close> when \<open>request.get_json()\<close> raises.
\<close>

record customer =
  cust_customer_id :: "string option"
  cust_name :: "string option"
  cust_email :: "string option"
  cust_phone :: "string option"

record book_payload =
  p_customer :: "customer option"
  p_calendar_id :: "string jfield"
  p_start :: "string option"
  p_end :: "string option"
  p_service_id :: "string option"
  p_agent_id :: "string option"
  p_idempotency_key :: "string option"
  p_booking_ref :: "string option"

record reschedule_payload =
  r_booking_ref :: "string option"
  r_new_start :: "string option"
  r_new_end :: "string option"

record cancel_payload =
  c_booking_ref :: "string option"

record availability_payload =
  a_date :: "string option"
  a_duration :: "int jfield"
  a_calendarIds :: "string list jfield"
  a_work_start :: "int jfield"
  a_work_end :: "int jfield"

text \<open>
  The answers of the routes: \<open>{"status": "ok", "booking": ...}\<close> (an absent booking is
  serialised as \<open>{}\<close>), the slots of a day, an error with its HTTP status, and an
  exception that no handler of the route catches.
\<close>

datatype response =
    OkBooking "booking option"
  | OkSlots string "slot list" "string list"
  | ErrorResponse string nat
  | Unhandled pyerr

text \<open>
  The \<open>try\<close> block that parses the two times and compares them; \<open>msg\<close> is the error text
  of the \<open>except\<close> branch.
\<close>

definition check_range ::
  "(string \<Rightarrow> datetime option) \<Rightarrow> string \<Rightarrow> string \<Rightarrow> string \<Rightarrow> string + datetime \<times> datetime" where
  "check_range fromisoformat msg start_s end_s =
     (case fromisoformat (replace_Z start_s) of
        None \<Rightarrow> Inl msg
      | Some start_dt \<Rightarrow>
          (case fromisoformat (replace_Z end_s) of
             None \<Rightarrow> Inl msg
           | Some end_dt \<Rightarrow>
               (case dt_le end_dt start_dt of
                  Inl _ \<Rightarrow> Inl msg
                | Inr c \<Rightarrow> if c then Inl ''end_must_be_after_start'' else Inr (start_dt, end_dt))))"

text \<open>
  After their checks of the request, \<open>book\<close> (line 128), \<open>reschedule\<close> (line 223) and
  \<open>cancel\<close> (line 282) run \<open>async for session in get_session()\<close>. In \<open>app/db.py\<close>,
  \<open>get_session\<close> is declared with \<open>@asynccontextmanager\<close>: the call returns a context manager,
  which has no \<open>__aiter__\<close>, and the \<open>async for\<close> statement raises \<open>TypeError\<close> before its body
  runs once. The statement stands in no \<open>try\<close> block, so the exception leaves the route.
  The bodies of the three loops (the lookup of the booking, the calendar call, the write
  to the table, the e-mail) are never run; the routes below end where the source does,
  with the state as it was.
\<close>

definition book ::
  "(string \<Rightarrow> datetime option) \<Rightarrow> book_payload option \<Rightarrow> world \<Rightarrow> response \<times> world" where
  "book fromisoformat req w =
     (case req of
        None \<Rightarrow> (ErrorResponse ''invalid_json'' 400, w)
      | Some payload \<Rightarrow>
          (case p_customer payload of
             None \<Rightarrow> (ErrorResponse ''missing_fields'' 400, w)
           | Some cust \<Rightarrow>
               if \<not> truthy (p_start payload) \<or> \<not> truthy (p_end payload)
                  \<or> \<not> truthy (p_service_id payload)
               then (ErrorResponse ''missing_fields'' 400, w)
               else
                 (case check_range fromisoformat
                         ''invalid_datetime_format; use ISO format with timezone (RFC3339)''
                         (the (p_start payload)) (the (p_end payload)) of
                    Inl msg \<Rightarrow> (ErrorResponse msg 400, w)
                  | Inr (start_dt, end_dt) \<Rightarrow> (Unhandled TypeError, w))))"

definition reschedule ::
  "(string \<Rightarrow> datetime option) \<Rightarrow> reschedule_payload option \<Rightarrow> world \<Rightarrow> response \<times> world" where
  "reschedule fromisoformat req w =
     (case req of
        None \<Rightarrow> (ErrorResponse ''invalid_json'' 400, w)
      | Some payload \<Rightarrow>
          if \<not> truthy (r_booking_ref payload) \<or> \<not> truthy (r_new_start payload)
             \<or> \<not> truthy (r_new_end payload)
          then (ErrorResponse ''booking_ref_new_start_new_end_required'' 400, w)
          else
            (case check_range fromisoformat ''invalid_datetime_format''
                    (the (r_new_start payload)) (the (r_new_end payload)) of
               Inl msg \<Rightarrow> (ErrorResponse msg 400, w)
             | Inr (new_start_dt, new_end_dt) \<Rightarrow> (Unhandled TypeError, w)))"

definition cancel :: "cancel_payload option \<Rightarrow> world \<Rightarrow> response \<times> world" where
  "cancel req w =
     (case req of
        None \<Rightarrow> (ErrorResponse ''invalid_json'' 400, w)
      | Some payload \<Rightarrow>
          if \<not> truthy (c_booking_ref payload) then (ErrorResponse ''booking_ref_required'' 400, w)
          else (Unhandled TypeError, w))"

text \<open>
  \<open>payload.get(key, default)\<close>, with \<open>None\<close> for Python's \<open>None\<close>, and
  \<open>int(payload.get(key, default))\<close>, which raises \<open>TypeError\<close> on \<open>None\<close>.
\<close>

definition get_field :: "'a jfield \<Rightarrow> 'a \<Rightarrow> 'a option" where
  "get_field v dflt = (case v of Absent \<Rightarrow> Some dflt | Null \<Rightarrow> None | Val x \<Rightarrow> Some x)"

definition int_field :: "int jfield \<Rightarrow> int \<Rightarrow> pyerr + int" where
  "int_field v dflt =
     (case get_field v dflt of None \<Rightarrow> Inl TypeError | Some n \<Rightarrow> Inr n)"

text \<open>
  The \<open>try\<close> block of \<open>availability\<close> (lines 75 to 81). Any exception of the freebusy query
  or of the slot computation gives \<open>freebusy_failed\<close>; with \<open>calendar_ids\<close> \<open>None\<close> the
  freebusy wrapper raises, as it iterates over it. The result is \<open>None\<close> when the slot
  computation never returns.
\<close>

definition availability_slots ::
  "(string \<Rightarrow> datetime option) \<Rightarrow> env \<Rightarrow> string \<Rightarrow> int \<Rightarrow> string list option \<Rightarrow> int \<Rightarrow> int
     \<Rightarrow> response option" where
  "availability_slots fromisoformat e date duration calendar_ids work_start work_end =
     (case calendar_ids of
        None \<Rightarrow> Some (ErrorResponse ''freebusy_failed'' 500)
      | Some ids \<Rightarrow>
          (case freebusy e ids (date @ ''T00:00:00Z'') (date @ ''T23:59:59Z'') of
             Inl err \<Rightarrow> Some (ErrorResponse ''freebusy_failed'' 500)
           | Inr fb \<Rightarrow>
               (case compute_free_slots_from_freebusy fromisoformat fb date duration
                       work_start work_end of
                  None \<Rightarrow> None
                | Some (Inl err) \<Rightarrow> Some (ErrorResponse ''freebusy_failed'' 500)
                | Some (Inr slots) \<Rightarrow> Some (OkSlots date slots ids))))"

text \<open>
  \<open>availability\<close>. The three numbers are read before the date is checked and outside any
  \<open>try\<close>: a \<open>null\<close> among them leaves the route as \<open>TypeError\<close>.
\<close>

definition availability ::
  "(string \<Rightarrow> datetime option) \<Rightarrow> env \<Rightarrow> availability_payload option \<Rightarrow> response option" where
  "availability fromisoformat e req =
     (case req of
        None \<Rightarrow> Some (ErrorResponse ''invalid_json'' 400)
      | Some payload \<Rightarrow>
          (case int_field (a_duration payload) 30 of
             Inl err \<Rightarrow> Some (Unhandled err)
           | Inr duration \<Rightarrow>
               (case int_field (a_work_start payload) 9 of
                  Inl err \<Rightarrow> Some (Unhandled err)
                | Inr work_start \<Rightarrow>
                    (case int_field (a_work_end payload) 17 of
                       Inl err \<Rightarrow> Some (Unhandled err)
                     | Inr work_end \<Rightarrow>
                         if \<not> truthy (a_date payload) then Some (ErrorResponse ''missing date'' 400)
                         else
                           availability_slots fromisoformat e (the (a_date payload)) duration
                             (get_field (a_calendarIds payload) [''primary''])
                             work_start work_end))))"

section \<open>Concrete data for the examples\<close>

text \<open>
  A parser for the three shapes of string the examples use: \<open>YYYY-MM-DD\<close>,
  \<open>YYYY-MM-DDTHH:MM:SS\<close> and \<open>YYYY-MM-DDTHH:MM:SS+HH:MM\<close> (or \<open>-HH:MM\<close>). On these it gives
  what \<open>datetime.fromisoformat\<close> gives, the wall clock being counted from
  \<open>0001-01-01T00:00:00\<close>; it rejects every other string. The theorems below hold for any
  parser; this one only serves the examples.
\<close>

definition digits_val :: "string \<Rightarrow> int option" where
  "digits_val s =
     (if s \<noteq> [] \<and> list_all (\<lambda>c. c \<in> set ''0123456789'') s
      then Some (foldl (\<lambda>a c. 10 * a + (of_char c - 48)) 0 s)
      else None)"

definition is_leap :: "int \<Rightarrow> bool" where
  "is_leap y = (y mod 4 = 0 \<and> (y mod 100 \<noteq> 0 \<or> y mod 400 = 0))"

definition days_in_month :: "int \<Rightarrow> int \<Rightarrow> int" where
  "days_in_month y m =
     (if m = 2 then (if is_leap y then 29 else 28)
      else if m = 4 \<or> m = 6 \<or> m = 9 \<or> m = 11 then 30 else 31)"

definition ymd2ord :: "int \<Rightarrow> int \<Rightarrow> int \<Rightarrow> int" where
  "ymd2ord y m d =
     (y - 1) * 365 + (y - 1) div 4 - (y - 1) div 100 + (y - 1) div 400
       + sum_list (map (days_in_month y) [1..m - 1]) + d"

definition parse_date :: "string \<Rightarrow> int option" where
  "parse_date s =
     (case (digits_val (take 4 s), digits_val (take 2 (drop 5 s)), digits_val (take 2 (drop 8 s))) of
        (Some y, Some m, Some d) \<Rightarrow>
          if length s = 10 \<and> s ! 4 = CHR ''-'' \<and> s ! 7 = CHR ''-'' \<and> 1 \<le> y \<and> 1 \<le> m \<and> m \<le> 12
             \<and> 1 \<le> d \<and> d \<le> days_in_month y m
          then Some ((ymd2ord y m d - 1) * 86400000000)
          else None
      | _ \<Rightarrow> None)"

definition parse_clock :: "string \<Rightarrow> int option" where
  "parse_clock s =
     (case (digits_val (take 2 s), digits_val (take 2 (drop 3 s)), digits_val (take 2 (drop 6 s))) of
        (Some h, Some m, Some sec) \<Rightarrow>
          if length s = 8 \<and> s ! 2 = CHR '':'' \<and> s ! 5 = CHR '':'' \<and> h \<le> 23 \<and> m \<le> 59 \<and> sec \<le> 59
          then Some ((h * 3600 + m * 60 + sec) * 1000000)
          else None
      | _ \<Rightarrow> None)"

definition parse_offset :: "string \<Rightarrow> int option" where
  "parse_offset s =
     (case (digits_val (take 2 (drop 1 s)), digits_val (take 2 (drop 4 s))) of
        (Some h, Some m) \<Rightarrow>
          if length s = 6 \<and> (s ! 0 = CHR ''+'' \<or> s ! 0 = CHR ''-'') \<and> s ! 3 = CHR '':'' \<and> h \<le> 23 \<and> m \<le> 59
          then Some ((if s ! 0 = CHR ''-'' then -1 else 1) * (h * 3600 + m * 60) * 1000000)
          else None
      | _ \<Rightarrow> None)"

definition iso_basic :: "string \<Rightarrow> datetime option" where
  "iso_basic s =
     (if length s = 10 then map_option (\<lambda>d. DT d None) (parse_date s)
      else if length s = 19 \<and> s ! 10 = CHR ''T'' then
        (case (parse_date (take 10 s), parse_clock (drop 11 s)) of
           (Some d, Some c) \<Rightarrow> Some (DT (d + c) None)
         | _ \<Rightarrow> None)
      else if length s = 25 \<and> s ! 10 = CHR ''T'' then
        (case (parse_date (take 10 s), parse_clock (take 8 (drop 11 s)), parse_offset (drop 19 s)) of
           (Some d, Some c, Some off) \<Rightarrow> Some (DT (d + c) (Some off))
         | _ \<Rightarrow> None)
      else None)"

section \<open>Notions used to state the properties\<close>

text \<open>
  An interval \<open>m\<close> covers an interval \<open>x\<close> when, by the comparisons of the program, \<open>m\<close>
  starts no later and ends no earlier than \<open>x\<close>.
\<close>

definition covers :: "interval \<Rightarrow> interval \<Rightarrow> bool" where
  "covers m x = (dt_le (fst m) (fst x) = Inr True \<and> dt_le (snd x) (snd m) = Inr True)"

text \<open>
  A busy entry is malformed when its start or its end is missing, empty or rejected by
  the parser.
\<close>

definition unparsable :: "(string \<Rightarrow> datetime option) \<Rightarrow> string option \<Rightarrow> bool" where
  "unparsable fromisoformat v =
     (case v of None \<Rightarrow> True | Some s \<Rightarrow> s = [] \<or> fromisoformat (replace_Z s) = None)"

fun malformed :: "(string \<Rightarrow> datetime option) \<Rightarrow> busy_entry \<Rightarrow> bool" where
  "malformed fromisoformat (Busy s e) =
     (unparsable fromisoformat s \<or> unparsable fromisoformat e)"

definition drop_malformed :: "(string \<Rightarrow> datetime option) \<Rightarrow> freebusy_resp \<Rightarrow> freebusy_resp" where
  "drop_malformed fromisoformat resp =
     map (\<lambda>(cal_id, busy). (cal_id, filter (\<lambda>b. \<not> malformed fromisoformat b) busy)) resp"

text \<open>
  The invariant of the merge loop, for the intervals \<open>seen\<close> so far, all naive (\<open>k\<close> true)
  or all aware (\<open>k\<close> false): the merged intervals are of that kind, not empty, each
  strictly before the next; every interval seen lies in one of them; and each of them
  starts where an interval seen starts and ends where an interval seen ends.
\<close>

definition merge_inv :: "bool \<Rightarrow> interval set \<Rightarrow> interval list \<Rightarrow> bool" where
  "merge_inv k seen merged =
     ((\<forall>m \<in> set merged. naive (fst m) = k \<and> naive (snd m) = k \<and> instant (fst m) < instant (snd m))
      \<and> sorted_wrt (\<lambda>a b. instant (snd a) < instant (fst b)) merged
      \<and> (\<forall>x \<in> seen. \<exists>m \<in> set merged.
            instant (fst m) \<le> instant (fst x) \<and> instant (snd x) \<le> instant (snd m))
      \<and> (\<forall>m \<in> set merged.
            (\<exists>x \<in> seen. fst x = fst m \<and> instant (snd x) \<le> instant (snd m))
          \<and> (\<exists>y \<in> seen. snd y = snd m \<and> instant (fst m) \<le> instant (fst y)))
      \<and> (merged = [] \<longrightarrow> seen = {}))"

text \<open>
  An environment in which no step raises and one in which the commit raises, a stored
  booking (its times naive, as read from the table), the state holding it, and requests.
\<close>

definition env_ok :: env where
  "env_ok = \<lparr> freebusy = (\<lambda>ids tmin tmax. Inr []),
              db_raises = (\<lambda>s. False),
              clock = 63900176400000000 \<rparr>"


definition booking1 :: booking where
  "booking1 = \<lparr> id_col = 1,
                booking_ref = ''BK-1'',
                idempotency_key = Some ''key-1'',
                customer_id = Some ''ann@example.org'',
                agent_id = None,
                calendar_id = ''primary'',
                event_id = ''evt-0'',
                service_id = ''Consultation'',
                start = DT 63900180000000000 None,
                end_col = DT 63900181800000000 None,
                status = ''confirmed'',
                paid = False,
                created_at = DT 63900000000000000 None,
                updated_at = None \<rparr>"


definition world1 :: world where
  "world1 = \<lparr> bookings = [booking1], calendar_calls = [] \<rparr>"

definition ann :: customer where
  "ann = \<lparr> cust_customer_id = None, cust_name = Some ''Ann'',
           cust_email = Some ''ann@example.org'', cust_phone = None \<rparr>"

definition book_request :: book_payload where
  "book_request = \<lparr> p_customer = Some ann,
                    p_calendar_id = Absent,
                    p_start = Some ''2025-12-02T10:00:00Z'',
                    p_end = Some ''2025-12-02T10:30:00Z'',
                    p_service_id = Some ''Consultation'',
                    p_agent_id = None,
                    p_idempotency_key = Some ''key-2'',
                    p_booking_ref = None \<rparr>"

definition replay_request :: book_payload where
  "replay_request = book_request\<lparr> p_idempotency_key := Some ''key-1'' \<rparr>"

definition reschedule_request :: reschedule_payload where
  "reschedule_request = \<lparr> r_booking_ref = Some ''BK-1'',
                          r_new_start = Some ''2025-12-03T10:00:00Z'',
                          r_new_end = Some ''2025-12-03T10:30:00Z'' \<rparr>"

definition cancel_request :: cancel_payload where
  "cancel_request = \<lparr> c_booking_ref = Some ''BK-1'' \<rparr>"

text \<open>Naive times of day on 2025-12-01, busy lists, freebusy responses and an availability
  request.\<close>

definition clock_at :: "int \<Rightarrow> int \<Rightarrow> datetime" where
  "clock_at h m = DT (63900144000000000 + (h * 60 + m) * 60000000) None"

definition busy_touching :: "interval list" where
  "busy_touching = [(clock_at 9 30, clock_at 10 0), (clock_at 9 0, clock_at 9 30)]"

definition busy_late :: freebusy_resp where
  "busy_late = [(''primary'', [Busy (Some ''2025-12-01T11:00:00'') (Some ''2025-12-01T12:00:00'')])]"

definition busy_evening :: freebusy_resp where
  "busy_evening = [(''primary'', [Busy (Some ''2025-12-01T18:00:00'') (Some ''2025-12-01T19:00:00'')])]"

definition busy_evening_utc :: freebusy_resp where
  "busy_evening_utc = [(''primary'', [Busy (Some ''2025-12-01T18:00:00Z'') (Some ''2025-12-01T19:00:00Z'')])]"

text \<open>
  A response with a malformed entry and a well-formed one, written as the calendar
  service writes its times (with \<open>Z\<close>); the same without the malformed entry; and the
  same two entries with the \<open>Z\<close> left out.
\<close>

definition busy_with_junk_utc :: freebusy_resp where
  "busy_with_junk_utc =
     [(''primary'', [Busy (Some ''soon'') (Some ''2025-12-01T10:00:00Z''),
                     Busy (Some ''2025-12-01T09:00:00Z'') (Some ''2025-12-01T09:15:00Z'')])]"

definition busy_utc :: freebusy_resp where
  "busy_utc =
     [(''primary'', [Busy (Some ''2025-12-01T09:00:00Z'') (Some ''2025-12-01T09:15:00Z'')])]"

definition busy_with_junk :: freebusy_resp where
  "busy_with_junk =
     [(''primary'', [Busy (Some ''soon'') (Some ''2025-12-01T10:00:00''),
                     Busy (Some ''2025-12-01T09:00:00'') (Some ''2025-12-01T09:15:00'')])]"

definition env_answers :: "freebusy_resp \<Rightarrow> env" where
  "env_answers resp = env_ok\<lparr> freebusy := (\<lambda>ids tmin tmax. Inr resp) \<rparr>"

definition availability_request :: availability_payload where
  "availability_request = \<lparr> a_date = Some ''2025-12-01'', a_duration = Val 30,
                            a_calendarIds = Absent, a_work_start = Val 9, a_work_end = Val 10 \<rparr>"

section \<open>The store: lemmas and cancellation\<close>

lemma length_update_first: "length (update_first p f xs) = length xs"
  by (induction xs) auto

lemma update_first_nth:
  "i < length xs \<Longrightarrow>
     update_first p f xs ! i = xs ! i
     \<or> (find p xs = Some (xs ! i) \<and> update_first p f xs ! i = f (xs ! i))"
proof (induction xs arbitrary: i)
  case Nil
  then show ?case by simp
next
  case (Cons x xs)
  show ?case
  proof (cases i)
    case 0
    then show ?thesis by simp
  next
    case (Suc j)
    with Cons.prems have "j < length xs" by simp
    from Cons.IH [OF this] Suc show ?thesis by auto
  qed
qed

lemma find_update_first:
  "find p xs = Some b \<Longrightarrow> p (f b) \<Longrightarrow> find p (update_first p f xs) = Some (f b)"
  by (induction xs) (auto split: if_splits)

lemma find_update_first_None:
  "find p xs = None \<Longrightarrow> update_first p f xs = xs"
  by (induction xs) (auto split: if_splits)

lemma update_booking_status_cases:
  assumes "get_booking_by_ref rows ref = Some b"
  shows "update_booking_status e rows ref s = (Inl DBError, rows)
       \<or> (snd (update_booking_status e rows ref s)
            = update_first (\<lambda>r. booking_ref r = ref)
                (\<lambda>_. b\<lparr>status := s, updated_at := Some (now_utc e)\<rparr>) rows
          \<and> (fst (update_booking_status e rows ref s) = Inl DBError
              \<or> fst (update_booking_status e rows ref s)
                   = Inr (Some (b\<lparr>status := s, updated_at := Some (now_utc e)\<rparr>))))"
  using assms by (simp add: update_booking_status_def Let_def)

lemma found_ref: "get_booking_by_ref rows ref = Some b \<Longrightarrow> booking_ref b = ref"
  by (auto simp: get_booking_by_ref_def find_Some_iff)

text \<open>
  Claim C10. For an existing booking, \<open>cancel_booking\<close> keeps the number of rows, leaves every
  column other than \<open>status\<close> and \<open>updated_at\<close> of every row as it was, changes no row but
  the one it found, and sets that row's \<open>status\<close> to \<open>cancelled\<close> and its \<open>updated_at\<close> to
  the time of the call; when it returns a booking, it is that row.
\<close>

theorem cancel_booking_frame:
  assumes "get_booking_by_ref rows ref = Some b"
  shows "length (snd (cancel_booking e rows ref)) = length rows
     \<and> (\<forall>i < length rows.
          id_col (snd (cancel_booking e rows ref) ! i) = id_col (rows ! i)
        \<and> booking_ref (snd (cancel_booking e rows ref) ! i) = booking_ref (rows ! i)
        \<and> idempotency_key (snd (cancel_booking e rows ref) ! i) = idempotency_key (rows ! i)
        \<and> customer_id (snd (cancel_booking e rows ref) ! i) = customer_id (rows ! i)
        \<and> agent_id (snd (cancel_booking e rows ref) ! i) = agent_id (rows ! i)
        \<and> calendar_id (snd (cancel_booking e rows ref) ! i) = calendar_id (rows ! i)
        \<and> event_id (snd (cancel_booking e rows ref) ! i) = event_id (rows ! i)
        \<and> service_id (snd (cancel_booking e rows ref) ! i) = service_id (rows ! i)
        \<and> start (snd (cancel_booking e rows ref) ! i) = start (rows ! i)
        \<and> end_col (snd (cancel_booking e rows ref) ! i) = end_col (rows ! i)
        \<and> paid (snd (cancel_booking e rows ref) ! i) = paid (rows ! i)
        \<and> created_at (snd (cancel_booking e rows ref) ! i) = created_at (rows ! i)
        \<and> (snd (cancel_booking e rows ref) ! i \<noteq> rows ! i \<longrightarrow>
              rows ! i = b
            \<and> status (snd (cancel_booking e rows ref) ! i) = ''cancelled''
            \<and> updated_at (snd (cancel_booking e rows ref) ! i) = Some (now_utc e)))
     \<and> (\<forall>r. fst (cancel_booking e rows ref) = Inr r \<longrightarrow>
           r = Some (b\<lparr>status := ''cancelled'', updated_at := Some (now_utc e)\<rparr>)
         \<and> get_booking_by_ref (snd (cancel_booking e rows ref)) ref = r)"
proof -
  let ?b' = "b\<lparr>status := ''cancelled'', updated_at := Some (now_utc e)\<rparr>"
  let ?upd = "update_first (\<lambda>r. booking_ref r = ref) (\<lambda>_. ?b') rows"
  have fb: "find (\<lambda>r. booking_ref r = ref) rows = Some b"
    using assms by (simp add: get_booking_by_ref_def)
  have ref: "booking_ref b = ref" using assms by (rule found_ref)
  have frame: "length ?upd = length rows
     \<and> (\<forall>i < length rows.
          id_col (?upd ! i) = id_col (rows ! i)
        \<and> booking_ref (?upd ! i) = booking_ref (rows ! i)
        \<and> idempotency_key (?upd ! i) = idempotency_key (rows ! i)
        \<and> customer_id (?upd ! i) = customer_id (rows ! i)
        \<and> agent_id (?upd ! i) = agent_id (rows ! i)
        \<and> calendar_id (?upd ! i) = calendar_id (rows ! i)
        \<and> event_id (?upd ! i) = event_id (rows ! i)
        \<and> service_id (?upd ! i) = service_id (rows ! i)
        \<and> start (?upd ! i) = start (rows ! i)
        \<and> end_col (?upd ! i) = end_col (rows ! i)
        \<and> paid (?upd ! i) = paid (rows ! i)
        \<and> created_at (?upd ! i) = created_at (rows ! i)
        \<and> (?upd ! i \<noteq> rows ! i \<longrightarrow>
              rows ! i = b \<and> status (?upd ! i) = ''cancelled''
            \<and> updated_at (?upd ! i) = Some (now_utc e)))"
  proof (intro conjI allI impI)
    show "length ?upd = length rows" by (rule length_update_first)
  next
    fix i assume i: "i < length rows"
    from update_first_nth [OF i, of "\<lambda>r. booking_ref r = ref" "\<lambda>_. ?b'"] fb
    have alt: "?upd ! i = rows ! i \<or> (rows ! i = b \<and> ?upd ! i = ?b')" by auto
    show "id_col (?upd ! i) = id_col (rows ! i)" using alt by auto
    show "booking_ref (?upd ! i) = booking_ref (rows ! i)" using alt by auto
    show "idempotency_key (?upd ! i) = idempotency_key (rows ! i)" using alt by auto
    show "customer_id (?upd ! i) = customer_id (rows ! i)" using alt by auto
    show "agent_id (?upd ! i) = agent_id (rows ! i)" using alt by auto
    show "calendar_id (?upd ! i) = calendar_id (rows ! i)" using alt by auto
    show "event_id (?upd ! i) = event_id (rows ! i)" using alt by auto
    show "service_id (?upd ! i) = service_id (rows ! i)" using alt by auto
    show "start (?upd ! i) = start (rows ! i)" using alt by auto
    show "end_col (?upd ! i) = end_col (rows ! i)" using alt by auto
    show "paid (?upd ! i) = paid (rows ! i)" using alt by auto
    show "created_at (?upd ! i) = created_at (rows ! i)" using alt by auto
    assume "?upd ! i \<noteq> rows ! i"
    with alt show "rows ! i = b" "status (?upd ! i) = ''cancelled''"
      "updated_at (?upd ! i) = Some (now_utc e)" by auto
  qed
  have found: "get_booking_by_ref ?upd ref = Some ?b'"
    unfolding get_booking_by_ref_def
    by (rule find_update_first [OF fb]) (simp add: ref)
  from update_booking_status_cases [OF assms, of e "''cancelled''"]
  consider (same) "cancel_booking e rows ref = (Inl DBError, rows)"
    | (upd_err) "snd (cancel_booking e rows ref) = ?upd" "fst (cancel_booking e rows ref) = Inl DBError"
    | (upd_ok) "snd (cancel_booking e rows ref) = ?upd" "fst (cancel_booking e rows ref) = Inr (Some ?b')"
    unfolding cancel_booking_def by blast
  then show ?thesis
  proof cases
    case same
    then show ?thesis by simp
  next
    case upd_err
    then show ?thesis using frame by simp
  next
    case upd_ok
    then show ?thesis using frame found by simp
  qed
qed

theorem cancel_booking_frame_witness:
  "get_booking_by_ref [booking1] ''BK-1'' = Some booking1
   \<and> length (snd (cancel_booking env_ok [booking1] ''BK-1'')) = length [booking1]
   \<and> event_id (snd (cancel_booking env_ok [booking1] ''BK-1'') ! 0) = event_id booking1
   \<and> fst (cancel_booking env_ok [booking1] ''BK-1'')
        = Inr (Some (booking1\<lparr>status := ''cancelled'', updated_at := Some (now_utc env_ok)\<rparr>))"
proof -
  have h: "get_booking_by_ref [booking1] ''BK-1'' = Some booking1"
    by (simp add: get_booking_by_ref_def booking1_def)
  have ok: "fst (cancel_booking env_ok [booking1] ''BK-1'')
        = Inr (Some (booking1\<lparr>status := ''cancelled'', updated_at := Some (now_utc env_ok)\<rparr>))"
    by (simp add: cancel_booking_def update_booking_status_def h env_ok_def Let_def)
  from cancel_booking_frame [OF h, of env_ok] h ok show ?thesis by simp
qed
section \<open>The routes \<open>book\<close>, \<open>reschedule\<close> and \<open>cancel\<close>\<close>

text \<open>
  The routes never change the state, and these are all their answers.
\<close>

lemma check_range_msg:
  "check_range prs msg s t = Inl m \<Longrightarrow> m = msg \<or> m = ''end_must_be_after_start''"
  by (auto simp: check_range_def split: option.splits sum.splits if_splits)

lemma book_state: "snd (book prs req w) = w"
  by (auto simp: book_def split: option.splits sum.splits prod.splits)



lemma book_answers:
  "fst (book prs req w) = Unhandled TypeError
   \<or> fst (book prs req w) = ErrorResponse ''invalid_json'' 400
   \<or> fst (book prs req w) = ErrorResponse ''missing_fields'' 400
   \<or> fst (book prs req w)
        = ErrorResponse ''invalid_datetime_format; use ISO format with timezone (RFC3339)'' 400
   \<or> fst (book prs req w) = ErrorResponse ''end_must_be_after_start'' 400"
proof (cases req)
  case None
  then show ?thesis by (simp add: book_def)
next
  case (Some payload)
  note req = Some
  show ?thesis
  proof (cases "p_customer payload")
    case None
    with req show ?thesis by (simp add: book_def)
  next
    case (Some cust)
    note cust = Some
    show ?thesis
    proof (cases "\<not> truthy (p_start payload) \<or> \<not> truthy (p_end payload)
                  \<or> \<not> truthy (p_service_id payload)")
      case True
      with req cust show ?thesis by (simp add: book_def)
    next
      case False
      show ?thesis
      proof (cases "check_range prs
                      ''invalid_datetime_format; use ISO format with timezone (RFC3339)''
                      (the (p_start payload)) (the (p_end payload))")
        case (Inl m)
        from check_range_msg [OF Inl] req cust False Inl show ?thesis
          by (simp only: book_def option.case if_False sum.case fst_conv) blast
      next
        case (Inr range)
        with req cust False show ?thesis
          by (simp only: book_def option.case if_False sum.case fst_conv split: prod.split) blast
      qed
    qed
  qed
qed

lemma reschedule_answers:
  "fst (reschedule prs req w) = Unhandled TypeError
   \<or> fst (reschedule prs req w) = ErrorResponse ''invalid_json'' 400
   \<or> fst (reschedule prs req w) = ErrorResponse ''booking_ref_new_start_new_end_required'' 400
   \<or> fst (reschedule prs req w) = ErrorResponse ''invalid_datetime_format'' 400
   \<or> fst (reschedule prs req w) = ErrorResponse ''end_must_be_after_start'' 400"
proof (cases req)
  case None
  then show ?thesis by (simp add: reschedule_def)
next
  case (Some payload)
  note req = Some
  show ?thesis
  proof (cases "\<not> truthy (r_booking_ref payload) \<or> \<not> truthy (r_new_start payload)
                \<or> \<not> truthy (r_new_end payload)")
    case True
    with req show ?thesis by (simp add: reschedule_def)
  next
    case False
    show ?thesis
    proof (cases "check_range prs ''invalid_datetime_format''
                    (the (r_new_start payload)) (the (r_new_end payload))")
      case (Inl m)
      from check_range_msg [OF Inl] req False Inl show ?thesis
        by (simp only: reschedule_def option.case if_False sum.case fst_conv) blast
    next
      case (Inr range)
      with req False show ?thesis
        by (simp only: reschedule_def option.case if_False sum.case fst_conv split: prod.split) blast
    qed
  qed
qed

lemma cancel_answers:
  "fst (cancel req w) = Unhandled TypeError
   \<or> fst (cancel req w) = ErrorResponse ''invalid_json'' 400
   \<or> fst (cancel req w) = ErrorResponse ''booking_ref_required'' 400"
  by (auto simp: cancel_def split: option.splits)

text \<open>
  Claim C1. A second \<open>book\<close> request carrying the idempotency key of a stored booking is
  to be answered with that booking, with no new calendar event and no new row, the check
  coming before any external call. The stored booking \<open>booking1\<close> carries the key
  \<open>key-1\<close>, and \<open>replay_request\<close> is a complete request with that key. The route answers
  neither with the stored booking nor with any booking: it raises \<open>TypeError\<close> at the
  session loop (line 128), before the replay check of line 129, and so it does on an
  empty table, where the request is a first call; on no request at all does it answer
  with a booking. (No calendar event is created and no row written, as the claim says;
  what fails is the answer.)
\<close>

theorem replay_request_raises:
  "get_booking_by_ref (bookings world1) ''BK-1'' = Some booking1
   \<and> idempotency_key booking1 = p_idempotency_key replay_request
   \<and> book iso_basic (Some replay_request) world1 = (Unhandled TypeError, world1)
   \<and> book iso_basic (Some replay_request) \<lparr>bookings = [], calendar_calls = []\<rparr>
        = (Unhandled TypeError, \<lparr>bookings = [], calendar_calls = []\<rparr>)
   \<and> (\<forall>prs req w b. fst (book prs req w) \<noteq> OkBooking b)"
proof -
  have "get_booking_by_ref (bookings world1) ''BK-1'' = Some booking1
   \<and> idempotency_key booking1 = p_idempotency_key replay_request
   \<and> book iso_basic (Some replay_request) world1 = (Unhandled TypeError, world1)
   \<and> book iso_basic (Some replay_request) \<lparr>bookings = [], calendar_calls = []\<rparr>
        = (Unhandled TypeError, \<lparr>bookings = [], calendar_calls = []\<rparr>)"
    by code_simp
  moreover have "fst (book prs req w) \<noteq> OkBooking b" for prs req w b
    using book_answers [of prs req w] by auto
  ultimately show ?thesis by simp
qed

theorem replay_request_raises_witness:
  "fst (book iso_basic (Some replay_request) world1) \<noteq> OkBooking (Some booking1)
   \<and> snd (book iso_basic (Some replay_request) world1) = world1"
  using replay_request_raises by simp

text \<open>
  Claim C6. When the calendar event was created and the insert of the booking fails,
  \<open>book\<close> is to delete that event once and to answer \<open>db_create_failed\<close>. The route has
  that code (lines 152 to 175) inside the session loop of line 128, which raises
  \<open>TypeError\<close> before its body runs: on the complete request \<open>book_request\<close>, in every state
  and whatever the calendar and the table would do, the route raises \<open>TypeError\<close>, makes no
  calendar call (no create for a delete to follow) and writes no row; and on no request
  does it answer \<open>db_create_failed\<close>.
\<close>

theorem create_reaches_no_collaborator:
  "fst (book iso_basic (Some book_request) w) = Unhandled TypeError
   \<and> calendar_calls (snd (book iso_basic (Some book_request) w)) = calendar_calls w
   \<and> bookings (snd (book iso_basic (Some book_request) w)) = bookings w
   \<and> (\<forall>prs req w'. fst (book prs req w') \<noteq> ErrorResponse ''db_create_failed'' 500)"
proof -
  have "book iso_basic (Some book_request) w = (Unhandled TypeError, w)"
    by (simp add: book_def book_request_def truthy_def) code_simp
  moreover have "fst (book prs req w') \<noteq> ErrorResponse ''db_create_failed'' 500" for prs req w'
    using book_answers [of prs req w'] by auto
  ultimately show ?thesis by simp
qed

theorem create_reaches_no_collaborator_witness:
  "fst (book iso_basic (Some book_request) world1) = Unhandled TypeError
   \<and> calendar_calls (snd (book iso_basic (Some book_request) world1)) = []
   \<and> bookings (snd (book iso_basic (Some book_request) world1)) = [booking1]
   \<and> fst (book iso_basic (Some book_request) world1) \<noteq> ErrorResponse ''db_create_failed'' 500"
  using create_reaches_no_collaborator [of world1] by (simp add: world1_def)

text \<open>
  Claim C7. When the creation of the calendar event fails, \<open>book\<close> is to write no row and
  answer \<open>calendar_create_failed\<close>; when the update of the event fails, \<open>reschedule\<close> is to
  leave the row as it was and answer \<open>calendar_update_failed\<close>. Both routes leave the table
  unchanged, but neither gives that answer: the calendar calls (lines 146 to 150 and 228
  to 237) stand inside the session loops of lines 128 and 223, which raise \<open>TypeError\<close>
  first. On the complete requests \<open>book_request\<close> and \<open>reschedule_request\<close> the routes raise
  \<open>TypeError\<close> with the state unchanged, and on no request is \<open>calendar_create_failed\<close> or
  \<open>calendar_update_failed\<close> the answer.
\<close>

theorem calendar_failure_never_answered:
  "book iso_basic (Some book_request) world1 = (Unhandled TypeError, world1)
   \<and> reschedule iso_basic (Some reschedule_request) world1 = (Unhandled TypeError, world1)
   \<and> (\<forall>prs req w. fst (book prs req w) \<noteq> ErrorResponse ''calendar_create_failed'' 500)
   \<and> (\<forall>prs req w. fst (reschedule prs req w) \<noteq> ErrorResponse ''calendar_update_failed'' 500)"
proof -
  have "book iso_basic (Some book_request) world1 = (Unhandled TypeError, world1)"
    by code_simp
  moreover have "reschedule iso_basic (Some reschedule_request) world1 = (Unhandled TypeError, world1)"
    by code_simp
  moreover have "fst (book prs req w) \<noteq> ErrorResponse ''calendar_create_failed'' 500" for prs req w
    using book_answers [of prs req w] by auto
  moreover have "fst (reschedule prs req w) \<noteq> ErrorResponse ''calendar_update_failed'' 500" for prs req w
    using reschedule_answers [of prs req w] by auto
  ultimately show ?thesis by simp
qed

theorem calendar_failure_never_answered_witness:
  "fst (book iso_basic (Some book_request) world1) \<noteq> ErrorResponse ''calendar_create_failed'' 500
   \<and> fst (reschedule iso_basic (Some reschedule_request) world1)
        \<noteq> ErrorResponse ''calendar_update_failed'' 500
   \<and> bookings (snd (book iso_basic (Some book_request) world1)) = [booking1]
   \<and> bookings (snd (reschedule iso_basic (Some reschedule_request) world1)) = [booking1]"
  using calendar_failure_never_answered by (simp add: world1_def)

text \<open>
  Claim C8. \<open>cancel\<close> of an existing booking is to set the stored status to \<open>cancelled\<close> and
  to report success even when the deletion of the calendar event fails. The booking
  \<open>BK-1\<close> is stored with status \<open>confirmed\<close>; \<open>cancel\<close> of it raises \<open>TypeError\<close> at the session
  loop (line 282), before \<open>delete_event\<close> is tried and before any write: the status stays
  \<open>confirmed\<close>, no calendar call is made, and on no request does \<open>cancel\<close> report success.
\<close>

theorem cancel_raises_before_delete:
  "get_booking_by_ref (bookings world1) ''BK-1'' = Some booking1
   \<and> cancel (Some cancel_request) world1 = (Unhandled TypeError, world1)
   \<and> map status (bookings (snd (cancel (Some cancel_request) world1))) = [''confirmed'']
   \<and> calendar_calls (snd (cancel (Some cancel_request) world1)) = []
   \<and> (\<forall>req w b. fst (cancel req w) \<noteq> OkBooking b)"
proof -
  have "get_booking_by_ref (bookings world1) ''BK-1'' = Some booking1" by code_simp
  moreover have "cancel (Some cancel_request) world1 = (Unhandled TypeError, world1)" by code_simp
  moreover have "map status (bookings (snd (cancel (Some cancel_request) world1))) = [''confirmed'']"
    by code_simp
  moreover have "calendar_calls (snd (cancel (Some cancel_request) world1)) = []" by code_simp
  moreover have "fst (cancel req w) \<noteq> OkBooking b" for req w b
    using cancel_answers [of req w] by auto
  ultimately show ?thesis by simp
qed

subsection \<open>The status \<open>cancelled\<close>\<close>




section \<open>Merging the busy intervals\<close>

lemma dt_le_same: "naive a = naive b \<Longrightarrow> dt_le a b = Inr (instant a \<le> instant b)"
  by (simp add: dt_le_def)

lemma dt_gt_same: "naive a = naive b \<Longrightarrow> dt_gt a b = Inr (instant b < instant a)"
  by (simp add: dt_gt_def)

lemma dt_max_same:
  "naive a = naive b \<Longrightarrow> dt_max a b = Inr (if instant a < instant b then b else a)"
  by (simp add: dt_max_def dt_gt_def)

lemma dt_le_True: "dt_le a b = Inr True \<longleftrightarrow> naive a = naive b \<and> instant a \<le> instant b"
  by (auto simp: dt_le_def)

lemma dt_gt_True: "dt_gt a b = Inr True \<longleftrightarrow> naive a = naive b \<and> instant b < instant a"
  by (auto simp: dt_gt_def)

lemma merge_step_first: "merge_step [] i = Inr [i]"
  by (simp add: merge_step_def)

lemma merge_step_snoc:
  assumes "naive (fst i) = naive (snd l)" "naive (snd i) = naive (snd l)"
  shows "merge_step (ms @ [l]) i =
     Inr (if instant (fst i) \<le> instant (snd l)
          then ms @ [(fst l, if instant (snd l) < instant (snd i) then snd i else snd l)]
          else ms @ [l, i])"
  using assms by (simp add: merge_step_def dt_le_same dt_max_same)

lemma merge_inv_step:
  assumes inv: "merge_inv k seen merged"
      and kind: "naive (fst i) = k" "naive (snd i) = k"
      and valid: "instant (fst i) < instant (snd i)"
      and later: "\<forall>x \<in> seen. instant (fst x) \<le> instant (fst i)"
  shows "\<exists>merged'. merge_step merged i = Inr merged' \<and> merge_inv k (insert i seen) merged'"
proof (cases merged rule: rev_cases)
  case Nil
  with inv have "seen = {}" by (simp add: merge_inv_def)
  with Nil kind valid show ?thesis
    by (simp add: merge_step_first merge_inv_def)
next
  case (snoc ms l)
  from inv snoc have l: "naive (fst l) = k" "naive (snd l) = k" "instant (fst l) < instant (snd l)"
    by (simp_all add: merge_inv_def)
  from inv snoc have ms: "\<forall>m \<in> set ms. naive (fst m) = k \<and> naive (snd m) = k \<and> instant (fst m) < instant (snd m)"
    by (simp add: merge_inv_def)
  from inv snoc have srt: "sorted_wrt (\<lambda>a b. instant (snd a) < instant (fst b)) ms"
    "\<forall>m \<in> set ms. instant (snd m) < instant (fst l)"
    by (simp_all add: merge_inv_def sorted_wrt_append)
  from inv snoc have cov: "\<forall>x \<in> seen. \<exists>m \<in> set (ms @ [l]).
            instant (fst m) \<le> instant (fst x) \<and> instant (snd x) \<le> instant (snd m)"
    by (simp add: merge_inv_def)
  from inv snoc have ends: "\<forall>m \<in> set (ms @ [l]).
            (\<exists>x \<in> seen. fst x = fst m \<and> instant (snd x) \<le> instant (snd m))
          \<and> (\<exists>y \<in> seen. snd y = snd m \<and> instant (fst m) \<le> instant (fst y))"
    by (simp add: merge_inv_def)
  from ends obtain x0 where x0: "x0 \<in> seen" "fst x0 = fst l" by auto
  with later have li: "instant (fst l) \<le> instant (fst i)" by force
  have step: "merge_step merged i =
     Inr (if instant (fst i) \<le> instant (snd l)
          then ms @ [(fst l, if instant (snd l) < instant (snd i) then snd i else snd l)]
          else ms @ [l, i])"
    unfolding snoc by (rule merge_step_snoc) (simp_all add: kind l)
  show ?thesis
  proof (cases "instant (fst i) \<le> instant (snd l)")
    case False
    let ?out = "ms @ [l, i]"
    have "merge_inv k (insert i seen) ?out"
      unfolding merge_inv_def
    proof (intro conjI)
      show "\<forall>m \<in> set ?out. naive (fst m) = k \<and> naive (snd m) = k \<and> instant (fst m) < instant (snd m)"
        using ms l kind valid by auto
      show "sorted_wrt (\<lambda>a b. instant (snd a) < instant (fst b)) ?out"
        using srt False l by (auto simp: sorted_wrt_append)
      show "\<forall>x \<in> insert i seen. \<exists>m \<in> set ?out.
            instant (fst m) \<le> instant (fst x) \<and> instant (snd x) \<le> instant (snd m)"
        using cov by auto
      show "\<forall>m \<in> set ?out.
            (\<exists>x \<in> insert i seen. fst x = fst m \<and> instant (snd x) \<le> instant (snd m))
          \<and> (\<exists>y \<in> insert i seen. snd y = snd m \<and> instant (fst m) \<le> instant (fst y))"
        using ends valid by auto
      show "?out = [] \<longrightarrow> insert i seen = {}" by simp
    qed
    with step False show ?thesis by simp
  next
    case True
    let ?e = "if instant (snd l) < instant (snd i) then snd i else snd l"
    let ?out = "ms @ [(fst l, ?e)]"
    have e: "instant (snd l) \<le> instant ?e" "instant (snd i) \<le> instant ?e" "naive ?e = k"
      using kind l by auto
    have "merge_inv k (insert i seen) ?out"
      unfolding merge_inv_def
    proof (intro conjI)
      show "\<forall>m \<in> set ?out. naive (fst m) = k \<and> naive (snd m) = k \<and> instant (fst m) < instant (snd m)"
        using ms l e by auto
      show "sorted_wrt (\<lambda>a b. instant (snd a) < instant (fst b)) ?out"
        using srt by (auto simp: sorted_wrt_append)
      show "\<forall>x \<in> insert i seen. \<exists>m \<in> set ?out.
            instant (fst m) \<le> instant (fst x) \<and> instant (snd x) \<le> instant (snd m)"
      proof
        fix x assume "x \<in> insert i seen"
        then consider "x = i" | "x \<in> seen" by auto
        then show "\<exists>m \<in> set ?out.
            instant (fst m) \<le> instant (fst x) \<and> instant (snd x) \<le> instant (snd m)"
        proof cases
          case 1
          with li e show ?thesis by auto
        next
          case 2
          with cov obtain m where m: "m \<in> set (ms @ [l])"
            "instant (fst m) \<le> instant (fst x)" "instant (snd x) \<le> instant (snd m)" by blast
          show ?thesis
          proof (cases "m = l")
            case True
            with m e show ?thesis by auto
          next
            case False
            with m show ?thesis by auto
          qed
        qed
      qed
      show "\<forall>m \<in> set ?out.
            (\<exists>x \<in> insert i seen. fst x = fst m \<and> instant (snd x) \<le> instant (snd m))
          \<and> (\<exists>y \<in> insert i seen. snd y = snd m \<and> instant (fst m) \<le> instant (fst y))"
      proof
        fix m assume "m \<in> set ?out"
        then consider "m \<in> set ms" | "m = (fst l, ?e)" by auto
        then show "(\<exists>x \<in> insert i seen. fst x = fst m \<and> instant (snd x) \<le> instant (snd m))
          \<and> (\<exists>y \<in> insert i seen. snd y = snd m \<and> instant (fst m) \<le> instant (fst y))"
        proof cases
          case 1
          with ends show ?thesis by auto
        next
          case 2
          from ends obtain x y where xy: "x \<in> seen" "fst x = fst l" "instant (snd x) \<le> instant (snd l)"
            "y \<in> seen" "snd y = snd l" "instant (fst l) \<le> instant (fst y)" by auto
          have a: "\<exists>x \<in> insert i seen. fst x = fst m \<and> instant (snd x) \<le> instant (snd m)"
            using 2 xy(1-3) e by force
          have b: "\<exists>y \<in> insert i seen. snd y = snd m \<and> instant (fst m) \<le> instant (fst y)"
          proof (cases "instant (snd l) < instant (snd i)")
            case True
            with 2 li show ?thesis by auto
          next
            case False
            with 2 xy(4-6) show ?thesis by auto
          qed
          from a b show ?thesis ..
        qed
      qed
      show "?out = [] \<longrightarrow> insert i seen = {}" by simp
    qed
    with step True show ?thesis by simp
  qed
qed

lemma merge_inv_loop:
  assumes "merge_inv k seen merged"
      and "\<forall>x \<in> set rest. naive (fst x) = k \<and> naive (snd x) = k \<and> instant (fst x) < instant (snd x)"
      and "sorted (map (\<lambda>x. instant (fst x)) rest)"
      and "\<forall>x \<in> seen. \<forall>y \<in> set rest. instant (fst x) \<le> instant (fst y)"
  shows "\<exists>out. merge_loop merged rest = Inr out \<and> merge_inv k (seen \<union> set rest) out"
  using assms
proof (induction rest arbitrary: merged seen)
  case Nil
  then show ?case by simp
next
  case (Cons i rest)
  from Cons.prems have "\<exists>merged'. merge_step merged i = Inr merged' \<and> merge_inv k (insert i seen) merged'"
    by (intro merge_inv_step) auto
  then obtain merged' where st: "merge_step merged i = Inr merged'"
    and inv': "merge_inv k (insert i seen) merged'" by blast
  have "\<exists>out. merge_loop merged' rest = Inr out \<and> merge_inv k (insert i seen \<union> set rest) out"
  proof (rule Cons.IH [OF inv'])
    show "\<forall>x \<in> set rest. naive (fst x) = k \<and> naive (snd x) = k \<and> instant (fst x) < instant (snd x)"
      using Cons.prems(2) by simp
    show "sorted (map (\<lambda>x. instant (fst x)) rest)" using Cons.prems(3) by simp
    show "\<forall>x \<in> insert i seen. \<forall>y \<in> set rest. instant (fst x) \<le> instant (fst y)"
      using Cons.prems(3,4) by auto
  qed
  with st show ?case by simp
qed

lemma merge_inv_empty: "merge_inv k {} []"
  by (simp add: merge_inv_def)

lemma merge_busy_inv:
  assumes "\<forall>x \<in> set xs. naive (fst x) = k \<and> naive (snd x) = k \<and> instant (fst x) < instant (snd x)"
  shows "\<exists>out. merge_busy xs = Inr out \<and> merge_inv k (set xs) out"
proof -
  let ?s = "sort_key (\<lambda>x. instant (fst x)) xs"
  from assms have "sort_by_start xs = Inr ?s"
    by (simp add: sort_by_start_def list_all_iff)
  moreover have "\<exists>out. merge_loop [] ?s = Inr out \<and> merge_inv k ({} \<union> set ?s) out"
    by (rule merge_inv_loop [OF merge_inv_empty]) (use assms in simp_all)
  ultimately show ?thesis by (simp add: merge_busy_def)
qed

lemma one_kind:
  assumes valid: "\<forall>x \<in> set xs. dt_gt (snd x) (fst x) = Inr True"
      and comparable: "\<forall>x \<in> set xs. \<forall>y \<in> set xs. naive (fst x) = naive (fst y)"
  shows "\<exists>k. \<forall>x \<in> set xs. naive (fst x) = k \<and> naive (snd x) = k \<and> instant (fst x) < instant (snd x)"
proof (cases xs)
  case Nil
  then show ?thesis by simp
next
  case (Cons a as)
  have "\<forall>x \<in> set xs. naive (fst x) = naive (fst a) \<and> naive (snd x) = naive (fst a)
          \<and> instant (fst x) < instant (snd x)"
  proof
    fix x assume x: "x \<in> set xs"
    with valid have "naive (snd x) = naive (fst x)" "instant (fst x) < instant (snd x)"
      by (auto simp: dt_gt_True)
    moreover from comparable x Cons have "naive (fst x) = naive (fst a)" by auto
    ultimately show "naive (fst x) = naive (fst a) \<and> naive (snd x) = naive (fst a)
          \<and> instant (fst x) < instant (snd x)" by simp
  qed
  then show ?thesis by blast
qed

lemma covers_same:
  "naive (fst m) = k \<Longrightarrow> naive (snd m) = k \<Longrightarrow> naive (fst x) = k \<Longrightarrow> naive (snd x) = k \<Longrightarrow>
   covers m x \<longleftrightarrow> instant (fst m) \<le> instant (fst x) \<and> instant (snd x) \<le> instant (snd m)"
  by (simp add: covers_def dt_le_True)

text \<open>
  Claim C5. For busy intervals that each end after they start and whose starts can be
  compared with one another (all naive or all aware), the sort and merge return a list
  in which each interval starts after the start and after the end of every earlier one
  (sorted by start, pairwise disjoint), each interval ends after it starts, every input
  interval is covered by exactly one output interval, two input intervals that overlap
  or touch are covered by the same output interval, and every output interval starts
  at the start of an input interval it covers and ends at the end of one (the least
  start and the greatest end of what it covers).
\<close>

theorem merge_busy_correct:
  assumes valid: "\<forall>x \<in> set xs. dt_gt (snd x) (fst x) = Inr True"
      and comparable: "\<forall>x \<in> set xs. \<forall>y \<in> set xs. naive (fst x) = naive (fst y)"
  shows "\<exists>merged. merge_busy xs = Inr merged
     \<and> (\<forall>i j. i < j \<and> j < length merged \<longrightarrow>
            dt_gt (fst (merged ! j)) (fst (merged ! i)) = Inr True
          \<and> dt_gt (fst (merged ! j)) (snd (merged ! i)) = Inr True)
     \<and> (\<forall>m \<in> set merged. dt_gt (snd m) (fst m) = Inr True)
     \<and> (\<forall>x \<in> set xs. \<exists>!j. j < length merged \<and> covers (merged ! j) x)
     \<and> (\<forall>x \<in> set xs. \<forall>y \<in> set xs.
            dt_le (fst x) (fst y) = Inr True \<and> dt_le (fst y) (snd x) = Inr True \<longrightarrow>
            (\<exists>m \<in> set merged. covers m x \<and> covers m y))
     \<and> (\<forall>m \<in> set merged. (\<exists>x \<in> set xs. fst x = fst m \<and> covers m x)
                          \<and> (\<exists>y \<in> set xs. snd y = snd m \<and> covers m y))"
proof -
  from one_kind [OF valid comparable] obtain k where
    kx: "\<forall>x \<in> set xs. naive (fst x) = k \<and> naive (snd x) = k \<and> instant (fst x) < instant (snd x)"
    by blast
  from merge_busy_inv [OF kx] obtain merged where
    run: "merge_busy xs = Inr merged" and inv: "merge_inv k (set xs) merged" by blast
  from inv have km: "\<forall>m \<in> set merged. naive (fst m) = k \<and> naive (snd m) = k
      \<and> instant (fst m) < instant (snd m)"
    and srt: "sorted_wrt (\<lambda>a b. instant (snd a) < instant (fst b)) merged"
    and cov: "\<forall>x \<in> set xs. \<exists>m \<in> set merged.
            instant (fst m) \<le> instant (fst x) \<and> instant (snd x) \<le> instant (snd m)"
    and ends: "\<forall>m \<in> set merged.
            (\<exists>x \<in> set xs. fst x = fst m \<and> instant (snd x) \<le> instant (snd m))
          \<and> (\<exists>y \<in> set xs. snd y = snd m \<and> instant (fst m) \<le> instant (fst y))"
    by (simp_all add: merge_inv_def)
  have sep: "instant (snd (merged ! i)) < instant (fst (merged ! j))"
    if "i < j" "j < length merged" for i j
    using srt that by (simp add: sorted_wrt_iff_nth_less)
  have nth_k: "naive (fst (merged ! j)) = k \<and> naive (snd (merged ! j)) = k
      \<and> instant (fst (merged ! j)) < instant (snd (merged ! j))" if "j < length merged" for j
    using km that by simp
  have cov_iff: "covers m x \<longleftrightarrow>
      instant (fst m) \<le> instant (fst x) \<and> instant (snd x) \<le> instant (snd m)"
    if "m \<in> set merged" "x \<in> set xs" for m x
    using km kx that by (intro covers_same [of m k x]) auto
  have p1: "\<forall>i j. i < j \<and> j < length merged \<longrightarrow>
            dt_gt (fst (merged ! j)) (fst (merged ! i)) = Inr True
          \<and> dt_gt (fst (merged ! j)) (snd (merged ! i)) = Inr True"
  proof (intro allI impI)
    fix i j assume ij: "i < j \<and> j < length merged"
    then have i: "i < length merged" by simp
    from sep [of i j] ij nth_k [OF i] nth_k [of j]
    show "dt_gt (fst (merged ! j)) (fst (merged ! i)) = Inr True
          \<and> dt_gt (fst (merged ! j)) (snd (merged ! i)) = Inr True"
      by (simp add: dt_gt_True)
  qed
  have p2: "\<forall>m \<in> set merged. dt_gt (snd m) (fst m) = Inr True"
    using km by (simp add: dt_gt_True)
  have uniq: "i = j" if i: "i < length merged" and j: "j < length merged"
    and x: "x \<in> set xs" and ci: "covers (merged ! i) x" and cj: "covers (merged ! j) x" for i j x
  proof (rule ccontr)
    assume ne: "i \<noteq> j"
    from ci cj i j x have b:
      "instant (fst (merged ! i)) \<le> instant (fst x)" "instant (snd x) \<le> instant (snd (merged ! i))"
      "instant (fst (merged ! j)) \<le> instant (fst x)" "instant (snd x) \<le> instant (snd (merged ! j))"
      by (simp_all add: cov_iff)
    from kx x have v: "instant (fst x) < instant (snd x)" by simp
    from ne consider "i < j" | "j < i" by linarith
    then show False
    proof cases
      case 1
      from sep [OF 1 j] b v show False by linarith
    next
      case 2
      from sep [OF 2 i] b v show False by linarith
    qed
  qed
  have p3: "\<forall>x \<in> set xs. \<exists>!j. j < length merged \<and> covers (merged ! j) x"
  proof
    fix x assume x: "x \<in> set xs"
    with cov obtain m where m: "m \<in> set merged"
      "instant (fst m) \<le> instant (fst x)" "instant (snd x) \<le> instant (snd m)" by blast
    then obtain j where j: "j < length merged" "merged ! j = m" by (auto simp: in_set_conv_nth)
    with m x have "covers (merged ! j) x" by (simp add: cov_iff)
    with j uniq x show "\<exists>!j. j < length merged \<and> covers (merged ! j) x" by blast
  qed
  have p4: "\<forall>x \<in> set xs. \<forall>y \<in> set xs.
            dt_le (fst x) (fst y) = Inr True \<and> dt_le (fst y) (snd x) = Inr True \<longrightarrow>
            (\<exists>m \<in> set merged. covers m x \<and> covers m y)"
  proof (intro ballI impI)
    fix x y assume x: "x \<in> set xs" and y: "y \<in> set xs"
      and t: "dt_le (fst x) (fst y) = Inr True \<and> dt_le (fst y) (snd x) = Inr True"
    then have xy: "instant (fst x) \<le> instant (fst y)" "instant (fst y) \<le> instant (snd x)"
      by (simp_all add: dt_le_True)
    from p3 x obtain i where i: "i < length merged" "covers (merged ! i) x" by blast
    from p3 y obtain j where j: "j < length merged" "covers (merged ! j) y" by blast
    from i x have bi: "instant (fst (merged ! i)) \<le> instant (fst x)"
      "instant (snd x) \<le> instant (snd (merged ! i))" by (simp_all add: cov_iff)
    from j y have bj: "instant (fst (merged ! j)) \<le> instant (fst y)"
      "instant (snd y) \<le> instant (snd (merged ! j))" by (simp_all add: cov_iff)
    from kx y have vy: "instant (fst y) < instant (snd y)" by simp
    from kx x have vx: "instant (fst x) < instant (snd x)" by simp
    have "i = j"
    proof (rule ccontr)
      assume "i \<noteq> j"
      then consider "i < j" | "j < i" by linarith
      then show False
      proof cases
        case 1
        from sep [OF 1 j(1)] bi bj xy show False by linarith
      next
        case 2
        from sep [OF 2 i(1)] bi bj xy vx vy show False by linarith
      qed
    qed
    with i j show "\<exists>m \<in> set merged. covers m x \<and> covers m y" by auto
  qed
  have p5: "\<forall>m \<in> set merged. (\<exists>x \<in> set xs. fst x = fst m \<and> covers m x)
                          \<and> (\<exists>y \<in> set xs. snd y = snd m \<and> covers m y)"
  proof
    fix m assume m: "m \<in> set merged"
    with ends obtain x y where x: "x \<in> set xs" "fst x = fst m" "instant (snd x) \<le> instant (snd m)"
      and y: "y \<in> set xs" "snd y = snd m" "instant (fst m) \<le> instant (fst y)" by blast
    from m x have "covers m x" by (simp add: cov_iff)
    moreover from m y have "covers m y" by (simp add: cov_iff)
    ultimately show "(\<exists>x \<in> set xs. fst x = fst m \<and> covers m x)
                          \<and> (\<exists>y \<in> set xs. snd y = snd m \<and> covers m y)"
      using x y by blast
  qed
  from run p1 p2 p3 p4 p5 show ?thesis by blast
qed

theorem merge_busy_correct_witness:
  "list_all (\<lambda>x. dt_gt (snd x) (fst x) = Inr True) busy_touching
   \<and> list_all (\<lambda>x. list_all (\<lambda>y. naive (fst x) = naive (fst y)) busy_touching) busy_touching
   \<and> merge_busy busy_touching = Inr [(clock_at 9 0, clock_at 10 0)]
   \<and> (\<exists>merged. merge_busy busy_touching = Inr merged
     \<and> (\<forall>i j. i < j \<and> j < length merged \<longrightarrow>
            dt_gt (fst (merged ! j)) (fst (merged ! i)) = Inr True
          \<and> dt_gt (fst (merged ! j)) (snd (merged ! i)) = Inr True)
     \<and> (\<forall>m \<in> set merged. dt_gt (snd m) (fst m) = Inr True)
     \<and> (\<forall>x \<in> set busy_touching. \<exists>!j. j < length merged \<and> covers (merged ! j) x)
     \<and> (\<forall>x \<in> set busy_touching. \<forall>y \<in> set busy_touching.
            dt_le (fst x) (fst y) = Inr True \<and> dt_le (fst y) (snd x) = Inr True \<longrightarrow>
            (\<exists>m \<in> set merged. covers m x \<and> covers m y))
     \<and> (\<forall>m \<in> set merged. (\<exists>x \<in> set busy_touching. fst x = fst m \<and> covers m x)
                          \<and> (\<exists>y \<in> set busy_touching. snd y = snd m \<and> covers m y)))"
proof -
  have l1: "list_all (\<lambda>x. dt_gt (snd x) (fst x) = Inr True) busy_touching"
    by code_simp
  have l2: "list_all (\<lambda>x. list_all (\<lambda>y. naive (fst x) = naive (fst y)) busy_touching) busy_touching"
    by code_simp
  have h1: "\<forall>x \<in> set busy_touching. dt_gt (snd x) (fst x) = Inr True"
    using l1 unfolding list_all_iff .
  have h2: "\<forall>x \<in> set busy_touching. \<forall>y \<in> set busy_touching. naive (fst x) = naive (fst y)"
    using l2 unfolding list_all_iff .
  have ev: "merge_busy busy_touching = Inr [(clock_at 9 0, clock_at 10 0)]"
    by code_simp
  note c = merge_busy_correct [OF h1 h2]
  show ?thesis
    by (rule conjI [OF l1 conjI [OF l2 conjI [OF ev c]]])
qed

section \<open>The slot generator\<close>

text \<open>
  What the generator does guarantee. With a positive duration the packing loop ends,
  and over busy intervals of one kind with the window bounds, sorted by start and none
  ending before it starts (as the merge returns them), the generator returns slots that
  each last the duration, start no earlier than \<open>start_dt\<close>, overlap no busy interval, follow
  one another without overlap, and end no later than \<open>end_dt\<close> or than the start of some busy
  interval. They all end by \<open>end_dt\<close> when no busy interval starts after it. With the
  duration 0 the packing loop never ends as soon as its condition holds once.
\<close>

lemma instant_timedelta_add [simp]:
  "instant (timedelta_add t m) = instant t + m * 60000000"
  by (simp add: timedelta_add_def instant_def split: option.splits)

lemma naive_timedelta_add [simp]: "naive (timedelta_add t m) = naive t"
  by (simp add: timedelta_add_def naive_def)

lemma pack_slots_total:
  assumes "0 < dur" "naive t = naive bound"
  shows "\<exists>new. pack_slots dur bound t slots = Some (Inr (slots @ new))
     \<and> (\<forall>s \<in> set new. snd s = timedelta_add (fst s) dur \<and> naive (fst s) = naive t
           \<and> instant t \<le> instant (fst s) \<and> instant (snd s) \<le> instant bound)
     \<and> sorted_wrt (\<lambda>a b. instant (snd a) \<le> instant (fst b)) new"
  using assms
proof (induction "nat (instant bound - instant t)" arbitrary: t slots rule: less_induct)
  case less
  let ?t' = "timedelta_add t dur"
  have le: "dt_le ?t' bound = Inr (instant t + dur * 60000000 \<le> instant bound)"
    using less.prems by (simp add: dt_le_def)
  show ?case
  proof (cases "instant t + dur * 60000000 \<le> instant bound")
    case False
    with le have "pack_slots dur bound t slots = Some (Inr slots)"
      by (subst pack_slots.simps) simp
    then show ?thesis by simp
  next
    case True
    with less.prems have "nat (instant bound - instant ?t') < nat (instant bound - instant t)"
      by simp
    from less.hyps [OF this \<open>0 < dur\<close>, of "slots @ [(t, ?t')]"] less.prems
    obtain new where new: "pack_slots dur bound ?t' (slots @ [(t, ?t')]) = Some (Inr ((slots @ [(t, ?t')]) @ new))"
      "\<forall>s \<in> set new. snd s = timedelta_add (fst s) dur \<and> naive (fst s) = naive ?t'
           \<and> instant ?t' \<le> instant (fst s) \<and> instant (snd s) \<le> instant bound"
      "sorted_wrt (\<lambda>a b. instant (snd a) \<le> instant (fst b)) new"
      by auto
    from le True new(1) have "pack_slots dur bound t slots = Some (Inr (slots @ (t, ?t') # new))"
      by (subst pack_slots.simps) simp
    moreover have "\<forall>s \<in> set ((t, ?t') # new). snd s = timedelta_add (fst s) dur \<and> naive (fst s) = naive t
           \<and> instant t \<le> instant (fst s) \<and> instant (snd s) \<le> instant bound"
      using new(2) True \<open>0 < dur\<close> by auto
    moreover have "sorted_wrt (\<lambda>a b. instant (snd a) \<le> instant (fst b)) ((t, ?t') # new)"
      using new(2,3) by auto
    ultimately show ?thesis by blast
  qed
qed

lemma pack_slots_zero_diverges:
  assumes "dt_le t bound = Inr True"
  shows "pack_slots 0 bound t slots = None"
proof (rule ccontr)
  assume "pack_slots 0 bound t slots \<noteq> None"
  then obtain y where y: "pack_slots 0 bound t slots = Some y" by auto
  have "\<not> ((0::int) = 0 \<and> dt_le t bound = Inr True)"
  proof (rule pack_slots.raw_induct
      [where P = "\<lambda>dur bound t slots y. \<not> (dur = 0 \<and> dt_le t bound = Inr True)", OF _ y])
    fix f dur bound' t' slots' y'
    assume IH: "\<And>d b t s y. f d b t s = Some y \<Longrightarrow> \<not> (d = 0 \<and> dt_le t b = Inr True)"
      and body: "(case dt_le (timedelta_add t' dur) bound' of
                    Inl e \<Rightarrow> Some (Inl e)
                  | Inr c \<Rightarrow>
                      if c then f dur bound' (timedelta_add t' dur)
                                  (slots' @ [(t', timedelta_add t' dur)])
                      else Some (Inr slots')) = Some y'"
    show "\<not> (dur = 0 \<and> dt_le t' bound' = Inr True)"
    proof
      assume a: "dur = 0 \<and> dt_le t' bound' = Inr True"
      then have same: "timedelta_add t' dur = t'" by (simp add: timedelta_add_def)
      with a body have "f 0 bound' t' (slots' @ [(t', t')]) = Some y'" by simp
      from IH [OF this] a show False by simp
    qed
  qed
  with assms show False by simp
qed

lemma walk_busy_sound:
  assumes "0 < dur" "naive current = k"
      and "\<forall>b \<in> set merged. naive (fst b) = k \<and> naive (snd b) = k \<and> instant (fst b) \<le> instant (snd b)"
      and "sorted (map (\<lambda>b. instant (fst b)) merged)"
  shows "\<exists>current' new. walk_busy dur current merged slots = Some (Inr (current', slots @ new))
     \<and> naive current' = k \<and> instant current \<le> instant current'
     \<and> (\<forall>b \<in> set merged. instant (snd b) \<le> instant current')
     \<and> (\<forall>s \<in> set new. snd s = timedelta_add (fst s) dur \<and> naive (fst s) = k
           \<and> instant current \<le> instant (fst s) \<and> instant (snd s) \<le> instant current'
           \<and> (\<exists>b \<in> set merged. instant (snd s) \<le> instant (fst b))
           \<and> (\<forall>b \<in> set merged. instant (snd s) \<le> instant (fst b) \<or> instant (snd b) \<le> instant (fst s)))
     \<and> sorted_wrt (\<lambda>a b. instant (snd a) \<le> instant (fst b)) new"
  using assms
proof (induction merged arbitrary: current slots)
  case Nil
  then show ?case by simp
next
  case (Cons b rest)
  obtain bstart bend where b: "b = (bstart, bend)" by (cases b)
  from Cons.prems b have kb: "naive bstart = k" "naive bend = k" "instant bstart \<le> instant bend"
    by auto
  have gt: "dt_gt bstart current = Inr (instant current < instant bstart)"
    using kb Cons.prems(2) by (simp add: dt_gt_same)
  let ?c1 = "if instant current < instant bend then bend else current"
  have mx: "dt_max current bend = Inr ?c1"
    using kb Cons.prems(2) by (simp add: dt_max_same)
  have c1: "naive ?c1 = k" "instant current \<le> instant ?c1" "instant bend \<le> instant ?c1"
    using kb Cons.prems(2) by auto
  \<comment> \<open>the slots packed before this busy interval\<close>
  have "\<exists>new1. (if instant current < instant bstart then pack_slots dur bstart current slots
                 else Some (Inr slots)) = Some (Inr (slots @ new1))
     \<and> (\<forall>s \<in> set new1. snd s = timedelta_add (fst s) dur \<and> naive (fst s) = k
           \<and> instant current \<le> instant (fst s) \<and> instant (snd s) \<le> instant bstart)
     \<and> sorted_wrt (\<lambda>a b. instant (snd a) \<le> instant (fst b)) new1"
  proof (cases "instant current < instant bstart")
    case True
    from pack_slots_total [OF \<open>0 < dur\<close>, of current bstart slots] kb Cons.prems(2) True
    show ?thesis by auto
  next
    case False
    then show ?thesis by simp
  qed
  then obtain new1 where new1:
    "(if instant current < instant bstart then pack_slots dur bstart current slots
      else Some (Inr slots)) = Some (Inr (slots @ new1))"
    "\<forall>s \<in> set new1. snd s = timedelta_add (fst s) dur \<and> naive (fst s) = k
           \<and> instant current \<le> instant (fst s) \<and> instant (snd s) \<le> instant bstart"
    "sorted_wrt (\<lambda>a b. instant (snd a) \<le> instant (fst b)) new1"
    by blast
  \<comment> \<open>the rest of the walk\<close>
  have rest_k: "\<forall>b \<in> set rest. naive (fst b) = k \<and> naive (snd b) = k \<and> instant (fst b) \<le> instant (snd b)"
    using Cons.prems(3) by simp
  have rest_sorted: "sorted (map (\<lambda>b. instant (fst b)) rest)"
    using Cons.prems(4) by simp
  have after: "\<forall>b' \<in> set rest. instant bstart \<le> instant (fst b')"
    using Cons.prems(4) b by auto
  from Cons.IH [OF \<open>0 < dur\<close> c1(1) rest_k rest_sorted, of "slots @ new1"]
  obtain current' new2 where w2:
    "walk_busy dur ?c1 rest (slots @ new1) = Some (Inr (current', (slots @ new1) @ new2))"
    "naive current' = k" "instant ?c1 \<le> instant current'"
    "\<forall>b \<in> set rest. instant (snd b) \<le> instant current'"
    "\<forall>s \<in> set new2. snd s = timedelta_add (fst s) dur \<and> naive (fst s) = k
           \<and> instant ?c1 \<le> instant (fst s) \<and> instant (snd s) \<le> instant current'
           \<and> (\<exists>b \<in> set rest. instant (snd s) \<le> instant (fst b))
           \<and> (\<forall>b \<in> set rest. instant (snd s) \<le> instant (fst b) \<or> instant (snd b) \<le> instant (fst s))"
    "sorted_wrt (\<lambda>a b. instant (snd a) \<le> instant (fst b)) new2"
    by blast
  have run: "walk_busy dur current (b # rest) slots = Some (Inr (current', slots @ (new1 @ new2)))"
    using b gt mx new1(1) w2(1) by simp
  have bounds: "instant current \<le> instant current'" "instant bend \<le> instant current'"
    using c1 w2(3) by linarith+
  have p1: "\<forall>s \<in> set (new1 @ new2). snd s = timedelta_add (fst s) dur \<and> naive (fst s) = k
           \<and> instant current \<le> instant (fst s) \<and> instant (snd s) \<le> instant current'
           \<and> (\<exists>b' \<in> set (b # rest). instant (snd s) \<le> instant (fst b'))
           \<and> (\<forall>b' \<in> set (b # rest). instant (snd s) \<le> instant (fst b') \<or> instant (snd b') \<le> instant (fst s))"
  proof
    fix s assume "s \<in> set (new1 @ new2)"
    then consider "s \<in> set new1" | "s \<in> set new2" by auto
    then show "snd s = timedelta_add (fst s) dur \<and> naive (fst s) = k
           \<and> instant current \<le> instant (fst s) \<and> instant (snd s) \<le> instant current'
           \<and> (\<exists>b' \<in> set (b # rest). instant (snd s) \<le> instant (fst b'))
           \<and> (\<forall>b' \<in> set (b # rest). instant (snd s) \<le> instant (fst b') \<or> instant (snd b') \<le> instant (fst s))"
    proof cases
      case 1
      with new1(2) have s: "snd s = timedelta_add (fst s) dur" "naive (fst s) = k"
        "instant current \<le> instant (fst s)" "instant (snd s) \<le> instant bstart" by blast+
      have "instant (snd s) \<le> instant current'" using s(4) kb(3) bounds(2) by linarith
      moreover have "\<forall>b' \<in> set (b # rest). instant (snd s) \<le> instant (fst b')"
        using s(4) after b by force
      ultimately show ?thesis using s by auto
    next
      case 2
      with w2(5) have s: "snd s = timedelta_add (fst s) dur" "naive (fst s) = k"
        "instant ?c1 \<le> instant (fst s)" "instant (snd s) \<le> instant current'"
        "\<exists>b \<in> set rest. instant (snd s) \<le> instant (fst b)"
        "\<forall>b \<in> set rest. instant (snd s) \<le> instant (fst b) \<or> instant (snd b) \<le> instant (fst s)"
        by blast+
      have "instant current \<le> instant (fst s)" "instant bend \<le> instant (fst s)"
        using s(3) c1 by linarith+
      with s b show ?thesis by auto
    qed
  qed
  have p2: "sorted_wrt (\<lambda>a b. instant (snd a) \<le> instant (fst b)) (new1 @ new2)"
  proof -
    have "instant (snd s1) \<le> instant (fst s2)" if "s1 \<in> set new1" "s2 \<in> set new2" for s1 s2
    proof -
      from new1(2) that have "instant (snd s1) \<le> instant bstart" by auto
      moreover from w2(5) that have "instant ?c1 \<le> instant (fst s2)" by auto
      ultimately show ?thesis using kb(3) c1(3) by linarith
    qed
    with new1(3) w2(6) show ?thesis by (auto simp: sorted_wrt_append)
  qed
  have p3: "\<forall>b' \<in> set (b # rest). instant (snd b') \<le> instant current'"
    using w2(4) bounds(2) b by auto
  from run w2(2) bounds(1) p1 p2 p3 show ?case by blast
qed

lemma generate_slots_sound:
  assumes "0 < dur" "naive start_dt = k" "naive end_dt = k"
      and "\<forall>b \<in> set merged. naive (fst b) = k \<and> naive (snd b) = k \<and> instant (fst b) \<le> instant (snd b)"
      and "sorted (map (\<lambda>b. instant (fst b)) merged)"
  shows "\<exists>slots. generate_slots merged start_dt end_dt dur = Some (Inr slots)
     \<and> (\<forall>s \<in> set slots. snd s = timedelta_add (fst s) dur
           \<and> instant start_dt \<le> instant (fst s)
           \<and> (\<forall>b \<in> set merged. instant (snd s) \<le> instant (fst b) \<or> instant (snd b) \<le> instant (fst s))
           \<and> (instant (snd s) \<le> instant end_dt \<or> (\<exists>b \<in> set merged. instant (snd s) \<le> instant (fst b))))
     \<and> sorted_wrt (\<lambda>a b. instant (snd a) \<le> instant (fst b)) slots"
proof -
  from walk_busy_sound [OF assms(1,2,4,5), of "[]"]
  obtain current new1 where w:
    "walk_busy dur start_dt merged [] = Some (Inr (current, new1))"
    "naive current = k" "instant start_dt \<le> instant current"
    "\<forall>b \<in> set merged. instant (snd b) \<le> instant current"
    "\<forall>s \<in> set new1. snd s = timedelta_add (fst s) dur \<and> naive (fst s) = k
           \<and> instant start_dt \<le> instant (fst s) \<and> instant (snd s) \<le> instant current
           \<and> (\<exists>b \<in> set merged. instant (snd s) \<le> instant (fst b))
           \<and> (\<forall>b \<in> set merged. instant (snd s) \<le> instant (fst b) \<or> instant (snd b) \<le> instant (fst s))"
    "sorted_wrt (\<lambda>a b. instant (snd a) \<le> instant (fst b)) new1"
    by auto
  from pack_slots_total [OF assms(1), of current end_dt new1] w(2) assms(3)
  obtain new2 where p:
    "pack_slots dur end_dt current new1 = Some (Inr (new1 @ new2))"
    "\<forall>s \<in> set new2. snd s = timedelta_add (fst s) dur \<and> naive (fst s) = naive current
           \<and> instant current \<le> instant (fst s) \<and> instant (snd s) \<le> instant end_dt"
    "sorted_wrt (\<lambda>a b. instant (snd a) \<le> instant (fst b)) new2"
    by auto
  have run: "generate_slots merged start_dt end_dt dur = Some (Inr (new1 @ new2))"
    using w(1) p(1) by (simp add: generate_slots_def)
  have each: "\<forall>s \<in> set (new1 @ new2). snd s = timedelta_add (fst s) dur
           \<and> instant start_dt \<le> instant (fst s)
           \<and> (\<forall>b \<in> set merged. instant (snd s) \<le> instant (fst b) \<or> instant (snd b) \<le> instant (fst s))
           \<and> (instant (snd s) \<le> instant end_dt \<or> (\<exists>b \<in> set merged. instant (snd s) \<le> instant (fst b)))"
  proof
    fix s assume "s \<in> set (new1 @ new2)"
    then consider "s \<in> set new1" | "s \<in> set new2" by auto
    then show "snd s = timedelta_add (fst s) dur
           \<and> instant start_dt \<le> instant (fst s)
           \<and> (\<forall>b \<in> set merged. instant (snd s) \<le> instant (fst b) \<or> instant (snd b) \<le> instant (fst s))
           \<and> (instant (snd s) \<le> instant end_dt \<or> (\<exists>b \<in> set merged. instant (snd s) \<le> instant (fst b)))"
    proof cases
      case 1
      with w(5) show ?thesis by blast
    next
      case 2
      with p(2) have s: "snd s = timedelta_add (fst s) dur" "instant current \<le> instant (fst s)"
        "instant (snd s) \<le> instant end_dt" by blast+
      have "\<forall>b \<in> set merged. instant (snd b) \<le> instant (fst s)"
        using w(4) s(2) by force
      moreover have "instant start_dt \<le> instant (fst s)" using w(3) s(2) by linarith
      ultimately show ?thesis using s by blast
    qed
  qed
  have "instant (snd s1) \<le> instant (fst s2)" if "s1 \<in> set new1" "s2 \<in> set new2" for s1 s2
  proof -
    from w(5) that have "instant (snd s1) \<le> instant current" by blast
    moreover from p(2) that have "instant current \<le> instant (fst s2)" by blast
    ultimately show ?thesis by linarith
  qed
  with w(6) p(3) have "sorted_wrt (\<lambda>a b. instant (snd a) \<le> instant (fst b)) (new1 @ new2)"
    by (auto simp: sorted_wrt_append)
  with run each show ?thesis by blast
qed

lemma generate_slots_within_window:
  assumes "0 < dur" "naive start_dt = k" "naive end_dt = k"
      and "\<forall>b \<in> set merged. naive (fst b) = k \<and> naive (snd b) = k \<and> instant (fst b) \<le> instant (snd b)"
      and "sorted (map (\<lambda>b. instant (fst b)) merged)"
      and "\<forall>b \<in> set merged. instant (fst b) \<le> instant end_dt"
  shows "\<exists>slots. generate_slots merged start_dt end_dt dur = Some (Inr slots)
     \<and> (\<forall>s \<in> set slots. instant start_dt \<le> instant (fst s) \<and> instant (snd s) \<le> instant end_dt)"
proof -
  from generate_slots_sound [OF assms(1-5)] obtain slots where
    s: "generate_slots merged start_dt end_dt dur = Some (Inr slots)"
    "\<forall>s \<in> set slots. snd s = timedelta_add (fst s) dur
           \<and> instant start_dt \<le> instant (fst s)
           \<and> (\<forall>b \<in> set merged. instant (snd s) \<le> instant (fst b) \<or> instant (snd b) \<le> instant (fst s))
           \<and> (instant (snd s) \<le> instant end_dt \<or> (\<exists>b \<in> set merged. instant (snd s) \<le> instant (fst b)))"
    by blast
  have "\<forall>s \<in> set slots. instant start_dt \<le> instant (fst s) \<and> instant (snd s) \<le> instant end_dt"
  proof
    fix x assume "x \<in> set slots"
    with s(2) have a: "instant start_dt \<le> instant (fst x)"
      and b: "instant (snd x) \<le> instant end_dt \<or> (\<exists>b \<in> set merged. instant (snd x) \<le> instant (fst b))"
      by blast+
    from b assms(6) have "instant (snd x) \<le> instant end_dt" by force
    with a show "instant start_dt \<le> instant (fst x) \<and> instant (snd x) \<le> instant end_dt" ..
  qed
  with s(1) show ?thesis by blast
qed

text \<open>
  Claim C2 at a failing input: with the working window 09:00 to 10:00, slots of 60
  minutes and one busy interval from 11:00 to 12:00, the generator returns the slots 09:00
  to 10:00 and 10:00 to 11:00. The second one ends after \<open>work_end\<close>: the loop that packs the
  slots before a busy interval is bounded by the start of that interval only.
\<close>

theorem slot_after_work_end:
  "generate_slots [(clock_at 11 0, clock_at 12 0)] (clock_at 9 0) (clock_at 10 0) 60
     = Some (Inr [(clock_at 9 0, clock_at 10 0), (clock_at 10 0, clock_at 11 0)])
   \<and> compute_free_slots_from_freebusy iso_basic busy_late ''2025-12-01'' 60 9 10
     = Some (Inr [(clock_at 9 0, clock_at 10 0), (clock_at 10 0, clock_at 11 0)])
   \<and> dt_gt (clock_at 11 0) (clock_at 10 0) = Inr True"
  by code_simp

text \<open>
  Claim C4 at two failing inputs, the window being empty (\<open>work_start\<close> 17, \<open>work_end\<close> 9):
  with a naive busy interval from 18:00 to 19:00 two slots are returned; with the same
  interval written with \<open>Z\<close> the comparison with the naive \<open>start_dt\<close> raises \<open>TypeError\<close>.
\<close>

theorem slots_in_empty_window:
  "compute_free_slots_from_freebusy iso_basic busy_evening ''2025-12-01'' 30 17 9
     = Some (Inr [(clock_at 17 0, clock_at 17 30), (clock_at 17 30, clock_at 18 0)])
   \<and> compute_free_slots_from_freebusy iso_basic busy_evening_utc ''2025-12-01'' 30 17 9
     = Some (Inl TypeError)"
  by code_simp
section \<open>Availability\<close>

text \<open>
  An entry whose start or end is missing, empty or not parsable adds nothing to the busy
  intervals, so the slots of a response are those of the response without such entries.
\<close>

lemma parse_entry_malformed: "malformed prs b \<Longrightarrow> parse_entry prs b = []"
  by (cases b) (auto simp: unparsable_def parse_field_def split: option.splits)

lemma parse_entries_filter:
  "concat (map (parse_entry prs) (filter (\<lambda>b. \<not> malformed prs b) busy))
     = concat (map (parse_entry prs) busy)"
  by (induction busy) (simp_all add: parse_entry_malformed)

lemma aggregate_drop_malformed:
  "aggregate_busy prs (drop_malformed prs resp) = aggregate_busy prs resp"
  by (induction resp) (auto simp: aggregate_busy_def drop_malformed_def parse_entries_filter)

lemma compute_drop_malformed:
  "compute_free_slots_from_freebusy prs (drop_malformed prs resp) d dur ws we
     = compute_free_slots_from_freebusy prs resp d dur ws we"
  by (simp only: compute_free_slots_from_freebusy_def aggregate_drop_malformed)

text \<open>An exception of the freebusy query becomes \<open>freebusy_failed\<close>, with no slots.\<close>

lemma availability_query_raises:
  assumes "freebusy e ids (date @ ''T00:00:00Z'') (date @ ''T23:59:59Z'') = Inl err"
  shows "availability_slots prs e date dur (Some ids) ws we = Some (ErrorResponse ''freebusy_failed'' 500)"
  using assms by (simp add: availability_slots_def)

text \<open>
  The merge keeps the start of its first interval, so a parsed entry that is aware leaves
  an aware start at the head of the merged list, where the walk compares it with the
  naive \<open>start_dt\<close>.
\<close>

lemma merge_step_hd:
  assumes "merged \<noteq> []" "merge_step merged i = Inr merged'"
  shows "merged' \<noteq> [] \<and> fst (hd merged') = fst (hd merged)"
proof -
  from assms(1) obtain ms l where m: "merged = ms @ [l]" by (cases merged rule: rev_cases) auto
  from assms(2) m have "merged' = ms @ [l, i] \<or> (\<exists>x. merged' = ms @ [(fst l, x)])"
    by (auto simp: merge_step_def split: sum.splits if_splits)
  with m show ?thesis by (cases ms) auto
qed

lemma merge_loop_hd:
  "merged \<noteq> [] \<Longrightarrow> merge_loop merged rest = Inr out \<Longrightarrow>
     out \<noteq> [] \<and> fst (hd out) = fst (hd merged)"
proof (induction rest arbitrary: merged)
  case Nil
  then show ?case by simp
next
  case (Cons i rest)
  from Cons.prems(2) obtain merged' where st: "merge_step merged i = Inr merged'"
    and lp: "merge_loop merged' rest = Inr out"
    by (auto split: sum.splits)
  from merge_step_hd [OF Cons.prems(1) st] Cons.IH [OF _ lp] show ?case by auto
qed

lemma merge_busy_aware_hd:
  assumes run: "merge_busy xs = Inr merged"
      and x: "x \<in> set xs" "\<not> naive (fst x)"
  shows "merged \<noteq> [] \<and> \<not> naive (fst (hd merged))"
proof -
  let ?s = "sort_key (\<lambda>x. instant (fst x)) xs"
  from run have srt: "sort_by_start xs = Inr ?s"
    by (cases "list_all (\<lambda>a. list_all (\<lambda>b. naive (fst a) = naive (fst b)) xs) xs")
       (simp_all add: merge_busy_def sort_by_start_def)
  then have "list_all (\<lambda>a. list_all (\<lambda>b. naive (fst a) = naive (fst b)) xs) xs"
    by (cases "list_all (\<lambda>a. list_all (\<lambda>b. naive (fst a) = naive (fst b)) xs) xs")
       (simp_all add: sort_by_start_def)
  then have kinds: "\<forall>a \<in> set xs. \<forall>b \<in> set xs. naive (fst a) = naive (fst b)"
    by (simp only: list_all_iff)
  from run srt have lp: "merge_loop [] ?s = Inr merged"
    by (simp add: merge_busy_def)
  from x have "set ?s \<noteq> {}" by auto
  then obtain y ys where s: "?s = y # ys" by (cases ?s) auto
  then have "y \<in> set xs" by (metis list.set_intros(1) set_sort)
  with kinds x have y: "\<not> naive (fst y)" by blast
  from lp s have "merge_loop [y] ys = Inr merged"
    by (simp add: merge_step_def)
  from merge_loop_hd [OF _ this] y show ?thesis by simp
qed

lemma walk_busy_aware:
  assumes "merged \<noteq> []" "\<not> naive (fst (hd merged))" "naive current"
  shows "walk_busy dur current merged slots = Some (Inl TypeError)"
proof -
  from assms(1) obtain bstart bend rest where m: "merged = (bstart, bend) # rest"
    by (cases merged) auto
  with assms show ?thesis by (simp add: dt_gt_def)
qed

lemma aware_never_slots:
  assumes "x \<in> set (aggregate_busy prs resp)" "\<not> naive (fst x)"
  shows "\<exists>err. compute_free_slots_from_freebusy prs resp d dur ws we = Some (Inl err)"
proof (cases "prs d")
  case None
  then show ?thesis by (simp add: compute_free_slots_from_freebusy_def)
next
  case (Some date)
  show ?thesis
  proof (cases "0 \<le> ws \<and> ws \<le> 23 \<and> 0 \<le> we \<and> we \<le> 23")
    case False
    with Some show ?thesis
      by (auto simp: compute_free_slots_from_freebusy_def day_at_hour_def)
  next
    case True
    show ?thesis
    proof (cases "merge_busy (aggregate_busy prs resp)")
      case (Inl err)
      with Some True show ?thesis
        by (simp add: compute_free_slots_from_freebusy_def day_at_hour_def)
    next
      case (Inr merged)
      from merge_busy_aware_hd [OF Inr assms] have "merged \<noteq> []" "\<not> naive (fst (hd merged))"
        by simp_all
      then have "walk_busy dur (DT (wall date - wall date mod 86400000000 + ws * 3600000000) None)
          merged [] = Some (Inl TypeError)"
        by (rule walk_busy_aware) (simp add: naive_def)
      with Some True Inr show ?thesis
        by (simp add: compute_free_slots_from_freebusy_def day_at_hour_def generate_slots_def)
    qed
  qed
qed

text \<open>
  Claim C9. When the freebusy query fails, \<open>availability\<close> fails as a whole; a malformed
  busy entry of a response is skipped and the well-formed entries still give slots. The
  first part holds (\<open>availability_query_raises\<close>), and a malformed entry is skipped
  (\<open>compute_drop_malformed\<close>). But a well-formed entry written as the calendar service
  writes it, with \<open>Z\<close>, is parsed to a timezone-aware value (line 194 replaces \<open>Z\<close> by
  \<open>+00:00\<close> for that), while \<open>start_dt\<close> of line 185 is naive: the comparison of line 220
  raises \<open>TypeError\<close> and the route answers \<open>freebusy_failed\<close>, with the malformed entry in
  the response or without it (\<open>aware_never_slots\<close> has it for every response with one such
  entry). Only with naive entries does the skipping leave slots: the last conjunct.
\<close>

theorem aware_entries_fail_availability:
  "availability iso_basic (env_answers busy_with_junk_utc) (Some availability_request)
     = Some (ErrorResponse ''freebusy_failed'' 500)
   \<and> availability iso_basic (env_answers busy_utc) (Some availability_request)
     = Some (ErrorResponse ''freebusy_failed'' 500)
   \<and> availability iso_basic (env_answers busy_with_junk) (Some availability_request)
     = Some (OkSlots ''2025-12-01'' [(clock_at 9 15, clock_at 9 45)] [''primary''])"
  by code_simp

end
